theory Spec2Isabelle
  imports Complex_Main "HOL-Library.AList" "HOL-Library.Log_Nat"
begin

section \<open>The progress tree of the code loader\<close>

text \<open>
  \<^verbatim>\<open>CodeLoader.__init__\<close> keeps four parallel lists indexed by level
  (\<^verbatim>\<open>self.max_level = 4\<close>): \<^verbatim>\<open>total\<close>, \<^verbatim>\<open>tick\<close>, \<^verbatim>\<open>action\<close> and \<^verbatim>\<open>output\<close>,
  two flags \<^verbatim>\<open>busy\<close> and \<^verbatim>\<open>error\<close>, the four lists of discovered files and the static
  policy (\<^verbatim>\<open>exclude_run\<close>, \<^verbatim>\<open>do_delete\<close>).  Python integers are unbounded, so counters
  are \<open>int\<close>.  The fields \<^verbatim>\<open>total\<close> and \<^verbatim>\<open>output\<close> are called \<open>total_lv\<close> and \<open>output_lv\<close> here.
\<close>

definition max_level :: nat where
  "max_level = 4"

record code_loader =
  images_to_load_tar :: "string list"
  images_to_load_tar_gz :: "string list"
  stacks_to_load_yaml :: "string list"
  stacks_to_run_yaml :: "string list"
  total_lv :: "int list"
  tick :: "int list"
  action :: "string option list"
  output_lv :: "string option list"
  busy :: bool
  error :: bool
  exclude_run :: "string list"
  do_delete :: bool

text \<open>
  Every list of the tree has \<open>max_level\<close> entries from \<^verbatim>\<open>__init__\<close> on, and every
  call site passes a literal level between 0 and 3, so the \<^verbatim>\<open>IndexError\<close> of an
  out-of-range store cannot occur; the setters below are the plain stores.
\<close>

definition tree_ok :: "'a code_loader_scheme \<Rightarrow> bool" where
  "tree_ok s \<longleftrightarrow>
     length (total_lv s) = max_level \<and> length (tick s) = max_level \<and>
     length (action s) = max_level \<and> length (output_lv s) = max_level"

definition set_total :: "nat \<Rightarrow> int \<Rightarrow> 'a code_loader_scheme \<Rightarrow> 'a code_loader_scheme" where
  "set_total level n s = s\<lparr>total_lv := (total_lv s)[level := n]\<rparr>"

definition set_tick :: "nat \<Rightarrow> int \<Rightarrow> 'a code_loader_scheme \<Rightarrow> 'a code_loader_scheme" where
  "set_tick level n s = s\<lparr>tick := (tick s)[level := n]\<rparr>"

text \<open>\<^verbatim>\<open>_tick(level)\<close>: one more unit at that level.\<close>

definition do_tick :: "nat \<Rightarrow> 'a code_loader_scheme \<Rightarrow> 'a code_loader_scheme" where
  "do_tick level s = set_tick level (tick s ! level + 1) s"

text \<open>
  \<^verbatim>\<open>_set_action\<close>: the loop over \<^verbatim>\<open>range(action_lvl+1, self.max_level, 1)\<close> clears the
  deeper levels one at a time, then the level itself gets the new action.
\<close>

definition clear_level :: "nat \<Rightarrow> 'a code_loader_scheme \<Rightarrow> 'a code_loader_scheme" where
  "clear_level lvl s = s\<lparr>action := (action s)[lvl := None], tick := (tick s)[lvl := 0]\<rparr>"

definition set_action :: "nat \<Rightarrow> string \<Rightarrow> 'a code_loader_scheme \<Rightarrow> 'a code_loader_scheme" where
  "set_action action_lvl a s =
     (let s1 = fold clear_level [action_lvl + 1 ..< max_level] s
      in s1\<lparr>action := (action s1)[action_lvl := Some a]\<rparr>)"

text \<open>\<^verbatim>\<open>_set_status(level, action, tick=0)\<close>; every caller leaves \<^verbatim>\<open>tick\<close> at its default.\<close>

definition set_status :: "nat \<Rightarrow> string \<Rightarrow> int \<Rightarrow> 'a code_loader_scheme \<Rightarrow> 'a code_loader_scheme" where
  "set_status level a tk s =
     (let s1 = set_tick level tk s;
          s2 = set_action level a s1
      in s2\<lparr>output_lv := (output_lv s2)[level := None]\<rparr>)"

section \<open>Exceptions\<close>

text \<open>A raised exception is a value: its class name and its message.\<close>

datatype exn = Exn (exn_type: string) (exn_msg: string)

text \<open>Sequencing of computations that may raise.\<close>

definition chain :: "exn + 'a \<Rightarrow> ('a \<Rightarrow> exn + 'b) \<Rightarrow> exn + 'b" where
  "chain r f = (case r of Inl e \<Rightarrow> Inl e | Inr x \<Rightarrow> f x)"

section \<open>Floating point\<close>

text \<open>
  Python's \<^verbatim>\<open>float\<close> is the IEEE 754 binary64 format.  A finite double is a real number;
  \<open>rnd\<close> rounds a real to the nearest double, ties to the even significand: the last place
  of a number \<open>x\<close> has the exponent \<open>ulp_exp x\<close>, 52 below the binary exponent of \<open>x\<close> (the
  integer part of its logarithm to base 2, see \<open>binary_exponent_eq\<close>), and never below that of
  the subnormal numbers.  \<open>rnd\<close> itself puts no upper limit on the
  exponent; a result of magnitude \<open>2 ^ 1024\<close> or more is the overflow of the operation.
\<close>

definition pow2 :: "int \<Rightarrow> real" where
  "pow2 e = (if 0 \<le> e then 2 ^ nat e else 1 / 2 ^ nat (- e))"

definition round_half_even :: "real \<Rightarrow> int" where
  "round_half_even m =
     (let f = \<lfloor>m\<rfloor> in
      if m - of_int f < 1 / 2 then f
      else if 1 / 2 < m - of_int f then f + 1
      else if even f then f else f + 1)"

definition binary_exponent :: "real \<Rightarrow> int" where
  "binary_exponent x =
     (if 1 \<le> x then bitlen \<lfloor>x\<rfloor> - 1 else - bitlen (\<lceil>1 / x\<rceil> - 1))"

definition ulp_exp :: "real \<Rightarrow> int" where
  "ulp_exp x = max (binary_exponent \<bar>x\<bar>) (- 1022) - 52"

definition rnd :: "real \<Rightarrow> real" where
  "rnd x =
     (if x = 0 then 0
      else sgn x * of_int (round_half_even (\<bar>x\<bar> / pow2 (ulp_exp x))) * pow2 (ulp_exp x))"

text \<open>
  The operations of Python on these numbers.  \<^verbatim>\<open>float(k)\<close> of an integer and the true
  division \<^verbatim>\<open>a / b\<close> of two integers are correctly rounded and raise \<^verbatim>\<open>OverflowError\<close>
  when the result is out of range.  A product or quotient of two floats that overflows is
  the infinity; both places where the loader forms one hand it at once to \<^verbatim>\<open>int\<close> or
  \<^verbatim>\<open>math.floor\<close>, which raise \<^verbatim>\<open>OverflowError\<close> on it, so the model raises there.
  \<^verbatim>\<open>int\<close> truncates towards zero.
\<close>

definition float_result :: "string \<Rightarrow> real \<Rightarrow> exn + real" where
  "float_result msg x =
     (if \<bar>rnd x\<bar> < 2 ^ 1024 then Inr (rnd x) else Inl (Exn ''OverflowError'' msg))"

definition float_of_int :: "int \<Rightarrow> exn + real" where
  "float_of_int k = float_result ''int too large to convert to float'' (of_int k)"

definition int_truediv :: "int \<Rightarrow> int \<Rightarrow> exn + real" where
  "int_truediv a b =
     (if b = 0 then Inl (Exn ''ZeroDivisionError'' ''division by zero'')
      else float_result ''integer division result too large for a float'' (of_int a / of_int b))"

definition float_mul :: "real \<Rightarrow> real \<Rightarrow> exn + real" where
  "float_mul x y = float_result ''cannot convert float infinity to integer'' (x * y)"

definition float_div :: "real \<Rightarrow> real \<Rightarrow> exn + real" where
  "float_div x y =
     (if y = 0 then Inl (Exn ''ZeroDivisionError'' ''float division by zero'')
      else float_result ''cannot convert float infinity to integer'' (x / y))"

definition py_int :: "real \<Rightarrow> int" where
  "py_int x = (if 0 \<le> x then \<lfloor>x\<rfloor> else \<lceil>x\<rceil>)"

section \<open>The progress aggregator\<close>

text \<open>
  \<^verbatim>\<open>percentage(partial, total, rtype=int)\<close> computes
  \<^verbatim>\<open>int((partial / total) * 100.0)\<close> after replacing a zero total by 1 and clamping
  \<^verbatim>\<open>partial\<close> from above: a true division of two integers, a product of two floats, and
  the truncation.
\<close>

definition percentage :: "int \<Rightarrow> int \<Rightarrow> exn + int" where
  "percentage partial n =
     (let n1 = (if n = 0 then 1 else n);
          p1 = min partial n1
      in chain (int_truediv p1 n1) (\<lambda>q.
         chain (float_mul q 100) (\<lambda>y.
         Inr (py_int y))))"

text \<open>
  \<^verbatim>\<open>int(math.floor(substep_progress * (1.0 / float(self.total[lvl]))))\<close>: the total is
  converted, the quotient formed, then the integer \<^verbatim>\<open>substep_progress\<close> is converted for
  the product.
\<close>

definition substep :: "int \<Rightarrow> int \<Rightarrow> exn + int" where
  "substep substep_progress n =
     chain (float_of_int n) (\<lambda>f.
     chain (float_div 1 f) (\<lambda>r.
     chain (float_of_int substep_progress) (\<lambda>c.
     chain (float_mul c r) (\<lambda>z.
     Inr \<lfloor>z\<rfloor>))))"

text \<open>
  \<^verbatim>\<open>_get_progress\<close>: the levels are visited from the deepest one upwards; each adds to its
  own percentage the scaled percentage of the level below.  An exception of the arithmetic
  ends the loop.
\<close>

definition progress_step :: "'a code_loader_scheme \<Rightarrow> nat \<Rightarrow> int list \<Rightarrow> exn + int list" where
  "progress_step s lvl progress =
     chain (percentage (tick s ! lvl) (total_lv s ! lvl)) (\<lambda>progress_base.
     chain (if lvl + 1 < max_level \<and> total_lv s ! lvl > 0
            then substep (progress ! (lvl + 1)) (total_lv s ! lvl)
            else Inr 0) (\<lambda>substep_progress.
     Inr (progress[lvl := progress_base + substep_progress])))"

fun progress_loop :: "'a code_loader_scheme \<Rightarrow> nat list \<Rightarrow> int list \<Rightarrow> exn + int list" where
  "progress_loop s [] progress = Inr progress"
| "progress_loop s (lvl # lvls) progress =
     chain (progress_step s lvl progress) (progress_loop s lvls)"

definition get_progress :: "'a code_loader_scheme \<Rightarrow> exn + int list" where
  "get_progress s = progress_loop s (rev [0 ..< max_level]) (replicate max_level 0)"

text \<open>The \<^verbatim>\<open>'status'\<close> entry of \<^verbatim>\<open>get_status\<close>.\<close>

definition get_status :: "'a code_loader_scheme \<Rightarrow> string" where
  "get_status s = (if error s then ''error'' else (if busy s then ''busy'' else ''ready''))"

text \<open>
  The percentage of one level that has a level below it, given the percentage \<open>child\<close> of
  that level; \<open>get_progress_unfold\<close> shows that \<open>get_progress\<close> nests it three times.
\<close>

definition level_result :: "'a code_loader_scheme \<Rightarrow> nat \<Rightarrow> int \<Rightarrow> exn + int" where
  "level_result s lvl child =
     chain (percentage (tick s ! lvl) (total_lv s ! lvl)) (\<lambda>progress_base.
     chain (if total_lv s ! lvl > 0 then substep child (total_lv s ! lvl) else Inr 0)
       (\<lambda>substep_progress.
     Inr (progress_base + substep_progress)))"

text \<open>A state for examples: the tree with the given counters, no files and the default policy.\<close>

definition tree_of :: "int list \<Rightarrow> int list \<Rightarrow> code_loader" where
  "tree_of ticks totals =
     \<lparr>images_to_load_tar = [], images_to_load_tar_gz = [], stacks_to_load_yaml = [],
      stacks_to_run_yaml = [], total_lv = totals, tick = ticks,
      action = replicate max_level None, output_lv = replicate max_level None,
      busy = False, error = False, exclude_run = [], do_delete = True\<rparr>"

section \<open>Strings\<close>

text \<open>
  The string operations of Python that the loader uses, on ASCII text.  \<^verbatim>\<open>str.strip()\<close>
  removes the ASCII whitespace characters (codes 9 to 13, 28 to 32) from both ends;
  \<^verbatim>\<open>str.split(sep)\<close> with a one-character separator cuts at every occurrence and always
  returns at least one part; \<^verbatim>\<open>str.replace(old, new)\<close> replaces the occurrences of a
  non-empty \<^verbatim>\<open>old\<close> from left to right; \<^verbatim>\<open>os.path.basename\<close> is what follows the last
  slash.
\<close>

definition is_space :: "char \<Rightarrow> bool" where
  "is_space c \<longleftrightarrow> (let n = (of_char c :: nat) in (9 \<le> n \<and> n \<le> 13) \<or> (28 \<le> n \<and> n \<le> 32))"

definition strip :: "string \<Rightarrow> string" where
  "strip s = rev (dropWhile is_space (rev (dropWhile is_space s)))"

fun split_on :: "char \<Rightarrow> string \<Rightarrow> string list" where
  "split_on c [] = [[]]"
| "split_on c (x # xs) =
     (case split_on c xs of
        [] \<Rightarrow> [[x]]
      | p # ps \<Rightarrow> if x = c then [] # p # ps else (x # p) # ps)"

definition lower_char :: "char \<Rightarrow> char" where
  "lower_char c =
     (let n = (of_char c :: nat) in if 65 \<le> n \<and> n \<le> 90 then char_of (n + 32) else c)"

definition lower :: "string \<Rightarrow> string" where
  "lower s = map lower_char s"

fun str_replace :: "string \<Rightarrow> string \<Rightarrow> string \<Rightarrow> string" where
  "str_replace old new [] = []"
| "str_replace old new (x # xs) =
     (if old \<noteq> [] \<and> take (length old) (x # xs) = old
      then new @ str_replace old new (drop (length old - 1) xs)
      else x # str_replace old new xs)"

definition basename :: "string \<Rightarrow> string" where
  "basename p = last (split_on (CHR ''/'') p)"

text \<open>
  \<^verbatim>\<open>os.path.basename(stack).replace('.yaml', '').replace('.yml', '')\<close>, computed in
  \<^verbatim>\<open>_run\<close> and in \<^verbatim>\<open>_docker_run_stack\<close>.
\<close>

definition stack_name_of :: "string \<Rightarrow> string" where
  "stack_name_of stack = str_replace ''.yml'' [] (str_replace ''.yaml'' [] (basename stack))"

section \<open>The host and the machine state\<close>

text \<open>
  The container runtime, the stack orchestrator, the filesystem and the clock are not part
  of the repository; they are the fields of a \<open>host\<close>, functions over a world \<open>'w\<close> that is
  left abstract.  A call that can raise returns \<open>Inl\<close> of the exception.
\<close>

datatype event =
    EvGlob string
  | EvStackImages string
  | EvStat string
  | EvLoad string
  | EvImages
  | EvPull string
  | EvComposeUp string string
  | EvRemove string
  | EvBootLog string string
  | EvDisableService string
  | EvSleep int

record 'w host =
  glob :: "string \<Rightarrow> 'w \<Rightarrow> (exn + string list) \<times> 'w"
  stack_images :: "string \<Rightarrow> 'w \<Rightarrow> (exn + string list) \<times> 'w"
  stat_size :: "string \<Rightarrow> 'w \<Rightarrow> (exn + int) \<times> 'w"
  docker_load :: "string \<Rightarrow> 'w \<Rightarrow> (int list \<times> (exn + string)) \<times> 'w"
  docker_images :: "'w \<Rightarrow> (exn + string) \<times> 'w"
  docker_pull :: "string \<Rightarrow> 'w \<Rightarrow> (exn + string list) \<times> 'w"
  compose_up :: "string \<Rightarrow> string \<Rightarrow> 'w \<Rightarrow> (exn + unit) \<times> 'w"
  os_remove :: "string \<Rightarrow> 'w \<Rightarrow> (exn + unit) \<times> 'w"
  boot_log_write :: "string \<Rightarrow> string \<Rightarrow> 'w \<Rightarrow> 'w"
  disable_service :: "string \<Rightarrow> 'w \<Rightarrow> (exn + unit) \<times> 'w"
  sleep :: "int \<Rightarrow> 'w \<Rightarrow> 'w"
  is_shutdown :: "'w \<Rightarrow> bool"

text \<open>
  The fields of the host, by the source expression each stands for:
  \<^item> \<open>glob\<close>: \<^verbatim>\<open>glob(pattern)\<close>;
  \<^item> \<open>stack_images\<close>: the \<^verbatim>\<open>image\<close> entries of the services of
    \<^verbatim>\<open>yaml.load(open(stack_file).read())\<close>, in order, duplicates included;
  \<^item> \<open>stat_size\<close>: \<^verbatim>\<open>os.stat(archive_file).st_size\<close>;
  \<^item> \<open>docker_load\<close>: the \<^verbatim>\<open>docker load\<close> process fed from the archive: the lengths of
    the chunks written before the file ended, shutdown was seen or something raised, then the
    text returned by \<^verbatim>\<open>communicate()\<close> or the exception;
  \<^item> \<open>docker_images\<close>: the decoded standard output of \<^verbatim>\<open>docker images --format ...\<close>;
  \<^item> \<open>docker_pull\<close>: the lines of the standard output of \<^verbatim>\<open>docker pull image\<close>;
  \<^item> \<open>compose_up\<close>: \<^verbatim>\<open>docker-compose -p stack_name --file stack_file up -d\<close>;
  \<^item> \<open>os_remove\<close>: \<^verbatim>\<open>os.remove(filepath)\<close>;
  \<^item> \<open>boot_log_write\<close>: the append to the boot log, whose failures \<^verbatim>\<open>_boot_log\<close> swallows;
  \<^item> \<open>disable_service\<close>: \<^verbatim>\<open>dt_avahi_utils.disable_service\<close>;
  \<^item> \<open>sleep\<close>: \<^verbatim>\<open>time.sleep\<close>; \<open>is_shutdown\<close>: \<^verbatim>\<open>self.is_shutdown\<close> of \<^verbatim>\<open>DTProcess\<close>.

  The machine is the loader object together with the world and the list of host calls made so
  far (kept to state which collaborators a cycle invoked).
\<close>

record 'w machine = code_loader +
  world :: 'w
  calls :: "event list"

type_synonym ('w, 'a) prog = "'w machine \<Rightarrow> (exn + 'a) \<times> 'w machine"

definition andthen :: "('w, 'a) prog \<Rightarrow> ('a \<Rightarrow> ('w, 'b) prog) \<Rightarrow> ('w, 'b) prog" where
  "andthen m f s = (case m s of (Inl e, s1) \<Rightarrow> (Inl e, s1) | (Inr x, s1) \<Rightarrow> f x s1)"

definition ret :: "'a \<Rightarrow> ('w, 'a) prog" where
  "ret x s = (Inr x, s)"

definition upd :: "('w machine \<Rightarrow> 'w machine) \<Rightarrow> ('w, unit) prog" where
  "upd f s = (Inr (), f s)"

definition call :: "event \<Rightarrow> ('w \<Rightarrow> (exn + 'a) \<times> 'w) \<Rightarrow> ('w, 'a) prog" where
  "call ev f s = (case f (world s) of (r, w1) \<Rightarrow> (r, s\<lparr>world := w1, calls := calls s @ [ev]\<rparr>))"

fun for_each :: "('a \<Rightarrow> ('w, unit) prog) \<Rightarrow> 'a list \<Rightarrow> ('w, unit) prog" where
  "for_each f [] s = (Inr (), s)"
| "for_each f (x # xs) s =
     (case f x s of (Inl e, s1) \<Rightarrow> (Inl e, s1) | (Inr u, s1) \<Rightarrow> for_each f xs s1)"

text \<open>\<^verbatim>\<open>_boot_log\<close>: never raises.\<close>

definition boot_log :: "'w host \<Rightarrow> string \<Rightarrow> string \<Rightarrow> ('w, unit) prog" where
  "boot_log h phase msg = call (EvBootLog phase msg) (\<lambda>w. (Inr (), boot_log_write h phase msg w))"

text \<open>\<^verbatim>\<open>remove_file\<close>: \<^verbatim>\<open>os.remove\<close> with nothing around it.\<close>

definition remove_file :: "'w host \<Rightarrow> string \<Rightarrow> ('w, unit) prog" where
  "remove_file h filepath = call (EvRemove filepath) (os_remove h filepath)"

section \<open>Pulling an image\<close>

text \<open>
  \<^verbatim>\<open>_docker_pull_image\<close>.  The body of the loop over the output lines is \<open>pull_line\<close>; the
  local set \<^verbatim>\<open>layers\<close> is threaded beside the machine.  \<^verbatim>\<open>self.output[level]\<close> holds a
  string from before the loop on, so the \<^verbatim>\<open>+=\<close> never meets \<^verbatim>\<open>None\<close>.
\<close>

datatype line_kind = NewLayer string | Completed | Ignored

definition classify_line :: "string \<Rightarrow> line_kind" where
  "classify_line line =
     (let parts = split_on (CHR '':'') (strip line) in
      if length parts \<noteq> 2 then Ignored
      else
        let layerID = strip (parts ! 0);
            act = strip (parts ! 1)
        in if length layerID \<noteq> 12 then Ignored
           else if act \<in> set [''Waiting'', ''Pulling fs layer''] then NewLayer layerID
           else if act \<in> set [''Download complete'', ''Pull complete''] then Completed
           else Ignored)"

definition append_output :: "nat \<Rightarrow> string \<Rightarrow> 'a code_loader_scheme \<Rightarrow> 'a code_loader_scheme" where
  "append_output level txt s =
     s\<lparr>output_lv := (output_lv s)[level :=
          Some ((case output_lv s ! level of Some old \<Rightarrow> old | None \<Rightarrow> []) @ txt)]\<rparr>"

definition pull_line ::
  "nat \<Rightarrow> string \<Rightarrow> string set \<times> 'a code_loader_scheme \<Rightarrow> string set \<times> 'a code_loader_scheme" where
  "pull_line level line ls =
     (let layers = fst ls;
          s1 = append_output level (CHR 0x0A # strip line) (snd ls)
      in case classify_line line of
           Ignored \<Rightarrow> (layers, s1)
         | NewLayer layerID \<Rightarrow>
             (insert layerID layers, set_total level (2 * int (card (insert layerID layers))) s1)
         | Completed \<Rightarrow> (layers, do_tick level s1))"

definition pull_begin :: "nat \<Rightarrow> 'a code_loader_scheme \<Rightarrow> 'a code_loader_scheme" where
  "pull_begin level s =
     (let s1 = set_total level 1 s;
          s2 = set_tick level 0 s1
      in s2\<lparr>output_lv := (output_lv s2)[level := Some []]\<rparr>)"

definition pull_lines ::
  "nat \<Rightarrow> string list \<Rightarrow> 'a code_loader_scheme \<Rightarrow> string set \<times> 'a code_loader_scheme" where
  "pull_lines level lines s = fold (pull_line level) lines ({}, pull_begin level s)"

definition docker_pull_image :: "'w host \<Rightarrow> string \<Rightarrow> nat \<Rightarrow> ('w, unit) prog" where
  "docker_pull_image h img level =
     andthen (upd (set_action level (''Pulling image: '' @ img))) (\<lambda>_.
     andthen (call (EvPull img) (docker_pull h img)) (\<lambda>lines.
     upd (\<lambda>s. snd (pull_lines level lines s))))"

section \<open>The other collaborator calls\<close>

text \<open>
  \<^verbatim>\<open>_docker_image_exists\<close>: the image must equal one of the stripped lines of the listing.
\<close>

definition docker_image_exists :: "'w host \<Rightarrow> string \<Rightarrow> ('w, bool) prog" where
  "docker_image_exists h img =
     andthen (call EvImages (docker_images h)) (\<lambda>listing.
     ret (img \<in> set (map strip (split_on (CHR 0x0A) listing))))"

text \<open>
  \<^verbatim>\<open>_docker_load_archive(archive_file, buffer_mb=8, level=2)\<close>: the tick of the level follows
  the bytes transferred chunk by chunk; the output is stored only when nothing raised.
\<close>

definition transfer_chunk ::
  "nat \<Rightarrow> int \<Rightarrow> int \<times> 'a code_loader_scheme \<Rightarrow> int \<times> 'a code_loader_scheme" where
  "transfer_chunk level n bs = (fst bs + n, set_tick level (fst bs + n) (snd bs))"

definition docker_load_archive :: "'w host \<Rightarrow> string \<Rightarrow> nat \<Rightarrow> ('w, unit) prog" where
  "docker_load_archive h archive_file level =
     andthen (upd (set_status level (''Loading archive: '' @ basename archive_file) 0)) (\<lambda>_.
     andthen (call (EvStat archive_file) (stat_size h archive_file)) (\<lambda>total_bytes.
     andthen (upd (set_total level total_bytes)) (\<lambda>_.
     (\<lambda>s. case docker_load h archive_file (world s) of
        ((chunks, r), w1) \<Rightarrow>
          (let s1 = s\<lparr>world := w1, calls := calls s @ [EvLoad archive_file]\<rparr>;
               s2 = snd (fold (transfer_chunk level) chunks (0, s1))
           in case r of
                Inl e \<Rightarrow> (Inl e, s2)
              | Inr out \<Rightarrow> (Inr (), s2\<lparr>output_lv := (output_lv s2)[level := Some out]\<rparr>))))))"

text \<open>
  \<^verbatim>\<open>_docker_run_stack(stack_file, level)\<close>.  \<^verbatim>\<open>Popen(cmd)\<close> is created without pipes, so the
  \<^verbatim>\<open>err\<close> that \<^verbatim>\<open>communicate()\<close> returns, and that is stored as output, is \<^verbatim>\<open>None\<close>.  The
  tick is the one of \<^verbatim>\<open>level\<close>.
\<close>

definition docker_run_stack :: "'w host \<Rightarrow> string \<Rightarrow> nat \<Rightarrow> ('w, unit) prog" where
  "docker_run_stack h stack_file level =
     andthen (upd (set_status level (''Running stack: '' @ stack_name_of stack_file) 0)) (\<lambda>_.
     andthen (upd (set_total level 1)) (\<lambda>_.
     andthen (call (EvComposeUp (stack_name_of stack_file) stack_file)
                (compose_up h (stack_name_of stack_file) stack_file)) (\<lambda>_.
     andthen (upd (\<lambda>s. s\<lparr>output_lv := (output_lv s)[level := None]\<rparr>)) (\<lambda>_.
     upd (do_tick level)))))"

text \<open>
  \<^verbatim>\<open>_images_in_stack\<close> returns \<^verbatim>\<open>list(set(images))\<close>: each image once, in an order that
  Python does not fix; the model keeps the order of last occurrence.
\<close>

definition images_in_stack :: "'w host \<Rightarrow> string \<Rightarrow> ('w, string list) prog" where
  "images_in_stack h stack_file =
     andthen (call (EvStackImages stack_file) (stack_images h stack_file)) (\<lambda>images.
     ret (remdups images))"

section \<open>One cycle\<close>

text \<open>
  The two dictionaries of \<^verbatim>\<open>_run\<close> are association lists filled in the order of the
  manifest lists; storing under a key already present replaces its value.
\<close>

fun read_stacks ::
  "'w host \<Rightarrow> string list \<Rightarrow> (string \<times> string list) list \<Rightarrow> ('w, (string \<times> string list) list) prog" where
  "read_stacks h [] d s = (Inr d, s)"
| "read_stacks h (stack # rest) d s =
     (case images_in_stack h stack s of
        (Inl e, s1) \<Rightarrow> (Inl e, s1)
      | (Inr images, s1) \<Rightarrow> read_stacks h rest (AList.update stack images d) s1)"

text \<open>\<^verbatim>\<open>sum(map(len, d.values()))\<close>\<close>

definition num_images_of :: "(string \<times> string list) list \<Rightarrow> int" where
  "num_images_of d = sum_list (map (\<lambda>kv. int (length (snd kv))) d)"

definition dict_get :: "(string \<times> string list) list \<Rightarrow> string \<Rightarrow> ('w, string list) prog" where
  "dict_get d k s = (case map_of d k of None \<Rightarrow> (Inl (Exn ''KeyError'' k), s) | Some v \<Rightarrow> (Inr v, s))"

text \<open>The body of the two archive loops (the loops for \<^verbatim>\<open>.tar\<close> and \<^verbatim>\<open>.tar.gz\<close> are the same text).\<close>

definition load_archive_item :: "'w host \<Rightarrow> string \<Rightarrow> ('w, unit) prog" where
  "load_archive_item h archive =
     andthen (docker_load_archive h archive 2) (\<lambda>_.
     andthen (\<lambda>s. if do_delete s then remove_file h archive s else (Inr (), s)) (\<lambda>_.
     andthen (upd (do_tick 1)) (\<lambda>_.
     andthen (upd (do_tick 0)) (\<lambda>_.
     boot_log h ''loading'' (''Archive loaded: '' @ basename archive)))))"

text \<open>The body of the inner loop over the images of a stack that is run at boot.\<close>

definition run_stack_image :: "'w host \<Rightarrow> string \<Rightarrow> ('w, unit) prog" where
  "run_stack_image h img =
     andthen (docker_image_exists h img) (\<lambda>present.
     andthen (if \<not> present
              then andthen (docker_pull_image h img 3) (\<lambda>_.
                   boot_log h ''loading'' (''Image loaded: '' @ img))
              else ret ()) (\<lambda>_.
     andthen (upd (do_tick 2)) (\<lambda>_.
     upd (do_tick 0))))"

text \<open>The body of the loop over \<^verbatim>\<open>self.stacks_to_run_yaml\<close>.\<close>

definition run_stack_item :: "'w host \<Rightarrow> (string \<times> string list) list \<Rightarrow> string \<Rightarrow> ('w, unit) prog" where
  "run_stack_item h stacks_to_run stack =
     andthen (dict_get stacks_to_run stack) (\<lambda>images.
     andthen (upd (set_total 2 (1 + int (length images)))) (\<lambda>_.
     andthen (upd (set_status 2 (''Loading stack: '' @ stack_name_of stack) 0)) (\<lambda>_.
     andthen (for_each (run_stack_image h) images) (\<lambda>_.
     andthen (\<lambda>s. if lower (stack_name_of stack) \<notin> set (exclude_run s)
                   then andthen (docker_run_stack h stack 3) (\<lambda>_.
                        boot_log h ''loading'' (''Stack run: '' @ stack_name_of stack)) s
                   else (Inr (), s)) (\<lambda>_.
     andthen (boot_log h ''loading'' (''Stack completed: '' @ stack_name_of stack)) (\<lambda>_.
     upd (do_tick 1)))))))"

text \<open>The body of the inner loop over the images of a stack that is only loaded.\<close>

definition load_stack_image :: "'w host \<Rightarrow> string \<Rightarrow> ('w, unit) prog" where
  "load_stack_image h img =
     andthen (docker_pull_image h img 3) (\<lambda>_.
     andthen (upd (do_tick 2)) (\<lambda>_.
     andthen (upd (do_tick 0)) (\<lambda>_.
     boot_log h ''loading'' (''Image loaded: '' @ img))))"

text \<open>The body of the loop over \<^verbatim>\<open>self.stacks_to_load_yaml\<close>.\<close>

definition load_stack_item :: "'w host \<Rightarrow> (string \<times> string list) list \<Rightarrow> string \<Rightarrow> ('w, unit) prog" where
  "load_stack_item h stacks_to_load stack =
     andthen (dict_get stacks_to_load stack) (\<lambda>images.
     andthen (upd (set_total 2 (int (length images)))) (\<lambda>_.
     andthen (upd (set_status 2 (''Loading stack: '' @ stack_name_of stack) 0)) (\<lambda>_.
     andthen (for_each (load_stack_image h) images) (\<lambda>_.
     andthen (\<lambda>s. if do_delete s then remove_file h stack s else (Inr (), s)) (\<lambda>_.
     andthen (boot_log h ''loading'' (''Stack completed: '' @ stack_name_of stack)) (\<lambda>_.
     upd (do_tick 1)))))))"

text \<open>The four phases of \<^verbatim>\<open>_run\<close>, each the statements between two comments of the source.\<close>

definition phase_tar :: "'w host \<Rightarrow> ('w, unit) prog" where
  "phase_tar h =
     andthen (upd (\<lambda>s. set_total 1 (int (length (images_to_load_tar s))) s)) (\<lambda>_.
     andthen (upd (set_status 1 ''Loading uncrompressed images (.tar)'' 0)) (\<lambda>_.
     (\<lambda>s. for_each (load_archive_item h) (images_to_load_tar s) s)))"

definition phase_tar_gz :: "'w host \<Rightarrow> ('w, unit) prog" where
  "phase_tar_gz h =
     andthen (upd (\<lambda>s. set_total 1 (int (length (images_to_load_tar_gz s))) s)) (\<lambda>_.
     andthen (upd (set_status 1 ''Loading crompressed images (.tar.gz)'' 0)) (\<lambda>_.
     (\<lambda>s. for_each (load_archive_item h) (images_to_load_tar_gz s) s)))"

definition phase_stacks_run :: "'w host \<Rightarrow> (string \<times> string list) list \<Rightarrow> ('w, unit) prog" where
  "phase_stacks_run h stacks_to_run =
     andthen (upd (\<lambda>s. set_total 1 (int (length (stacks_to_run_yaml s))) s)) (\<lambda>_.
     andthen (upd (set_status 1 ''Loading stacks we run at boot'' 0)) (\<lambda>_.
     (\<lambda>s. for_each (run_stack_item h stacks_to_run) (stacks_to_run_yaml s) s)))"

definition phase_stacks_load :: "'w host \<Rightarrow> (string \<times> string list) list \<Rightarrow> ('w, unit) prog" where
  "phase_stacks_load h stacks_to_load =
     andthen (upd (\<lambda>s. set_total 1 (int (length (stacks_to_load_yaml s))) s)) (\<lambda>_.
     andthen (upd (set_status 1 ''Loading other stacks'' 0)) (\<lambda>_.
     (\<lambda>s. for_each (load_stack_item h stacks_to_load) (stacks_to_load_yaml s) s)))"

text \<open>\<^verbatim>\<open>_run\<close>\<close>

definition num_images ::
  "'a code_loader_scheme \<Rightarrow> (string \<times> string list) list \<Rightarrow> (string \<times> string list) list \<Rightarrow> int" where
  "num_images s stacks_to_load stacks_to_run =
     int (length (images_to_load_tar s)) + int (length (images_to_load_tar_gz s)) +
     num_images_of stacks_to_load + num_images_of stacks_to_run"

definition run :: "'w host \<Rightarrow> ('w, unit) prog" where
  "run h =
     andthen (upd (\<lambda>s. s\<lparr>busy := True\<rparr>)) (\<lambda>_.
     andthen (\<lambda>s. read_stacks h (stacks_to_load_yaml s) [] s) (\<lambda>stacks_to_load.
     andthen (\<lambda>s. read_stacks h (stacks_to_run_yaml s) [] s) (\<lambda>stacks_to_run.
     andthen (upd (\<lambda>s. set_total 0 (num_images s stacks_to_load stacks_to_run) s)) (\<lambda>_.
     andthen (upd (set_status 0 ''Loading Docker images'' 0)) (\<lambda>_.
     andthen (phase_tar h) (\<lambda>_.
     andthen (phase_tar_gz h) (\<lambda>_.
     andthen (phase_stacks_run h stacks_to_run) (\<lambda>_.
     andthen (phase_stacks_load h stacks_to_load) (\<lambda>_.
     andthen (boot_log h ''done'' ''All stacks up'') (\<lambda>_.
     upd (\<lambda>s. s\<lparr>busy := False\<rparr>)))))))))))"

section \<open>The cycle controller\<close>

definition LOADER_DATA_DIR :: string where
  "LOADER_DATA_DIR = ''/data/loader''"

definition RECHECK_PERIOD_ON_ERROR_SEC :: int where
  "RECHECK_PERIOD_ON_ERROR_SEC = 10"

definition RECHECK_PERIOD_SEC :: int where
  "RECHECK_PERIOD_SEC = 60"

text \<open>
  \<^verbatim>\<open>__init__\<close>, from the process environment (a map from variable names to values).
\<close>

definition init_loader :: "(string \<rightharpoonup> string) \<Rightarrow> code_loader" where
  "init_loader environ =
     \<lparr>images_to_load_tar = [], images_to_load_tar_gz = [], stacks_to_load_yaml = [],
      stacks_to_run_yaml = [],
      total_lv = replicate max_level 1, tick = replicate max_level 0,
      action = replicate max_level None, output_lv = replicate max_level None,
      busy = True, error = False,
      exclude_run = (case environ ''EXCLUDE_RUN'' of
                       Some v \<Rightarrow> split_on (CHR '','') (lower v) | None \<Rightarrow> []),
      do_delete = (\<not> (environ ''NO_DELETE'' = Some ''1''))\<rparr>"

definition init_machine :: "(string \<rightharpoonup> string) \<Rightarrow> 'w \<Rightarrow> 'w machine" where
  "init_machine environ w = code_loader.extend (init_loader environ) \<lparr>world = w, calls = []\<rparr>"

text \<open>
  \<^verbatim>\<open>_load_configuration\<close>: six globs, assigned as they return.  The status text it prints
  is not part of the state.
\<close>

definition glob_in :: "'w host \<Rightarrow> string \<Rightarrow> string \<Rightarrow> ('w, string list) prog" where
  "glob_in h dir pat =
     call (EvGlob (LOADER_DATA_DIR @ ''/'' @ dir @ ''/'' @ pat))
          (glob h (LOADER_DATA_DIR @ ''/'' @ dir @ ''/'' @ pat))"

definition load_configuration :: "'w host \<Rightarrow> ('w, unit) prog" where
  "load_configuration h =
     andthen (glob_in h ''images_to_load'' ''*.tar'') (\<lambda>tars.
     andthen (upd (\<lambda>s. s\<lparr>images_to_load_tar := tars\<rparr>)) (\<lambda>_.
     andthen (glob_in h ''images_to_load'' ''*.tar.gz'') (\<lambda>tgzs.
     andthen (upd (\<lambda>s. s\<lparr>images_to_load_tar_gz := tgzs\<rparr>)) (\<lambda>_.
     andthen (glob_in h ''stacks_to_load'' ''*.yaml'') (\<lambda>l1.
     andthen (glob_in h ''stacks_to_load'' ''*.yml'') (\<lambda>l2.
     andthen (upd (\<lambda>s. s\<lparr>stacks_to_load_yaml := l1 @ l2\<rparr>)) (\<lambda>_.
     andthen (glob_in h ''stacks_to_run'' ''*.yaml'') (\<lambda>r1.
     andthen (glob_in h ''stacks_to_run'' ''*.yml'') (\<lambda>r2.
     upd (\<lambda>s. s\<lparr>stacks_to_run_yaml := r1 @ r2\<rparr>))))))))))"

text \<open>The \<^verbatim>\<open>try\<close> block of \<^verbatim>\<open>start\<close>.\<close>

definition cycle :: "'w host \<Rightarrow> ('w, unit) prog" where
  "cycle h =
     andthen (load_configuration h) (\<lambda>_.
     andthen (run h) (\<lambda>_.
     call (EvDisableService ''dt.device-init'') (disable_service h ''dt.device-init'')))"

text \<open>
  The handler starts with \<^verbatim>\<open>e = '\n'.join(sys.exc_info())\<close>.  \<^verbatim>\<open>sys.exc_info()\<close> is the
  triple of the exception's class, the exception and the traceback; \<^verbatim>\<open>str.join\<close> accepts
  strings only and raises \<^verbatim>\<open>TypeError\<close> at the first item that is not one.
\<close>

datatype pyval = PyStr string | PyType string | PyExc exn | PyTraceback

definition exc_info :: "exn \<Rightarrow> pyval list" where
  "exc_info e = [PyType (exn_type e), PyExc e, PyTraceback]"

definition type_name :: "pyval \<Rightarrow> string" where
  "type_name v = (case v of PyStr x \<Rightarrow> ''str'' | PyType x \<Rightarrow> ''type''
                  | PyExc x \<Rightarrow> exn_type x | PyTraceback \<Rightarrow> ''traceback'')"

fun show_nat :: "nat \<Rightarrow> string" where
  "show_nat n =
     (if n < 10 then [char_of (48 + n)] else show_nat (n div 10) @ [char_of (48 + n mod 10)])"

declare show_nat.simps [simp del]

fun join_strs :: "string \<Rightarrow> string list \<Rightarrow> string" where
  "join_strs sep [] = []"
| "join_strs sep [x] = x"
| "join_strs sep (x # y # ys) = x @ sep @ join_strs sep (y # ys)"

fun join_from :: "nat \<Rightarrow> pyval list \<Rightarrow> exn + string list" where
  "join_from i [] = Inr []"
| "join_from i (PyStr x # vs) =
     (case join_from (i + 1) vs of Inl e \<Rightarrow> Inl e | Inr xs \<Rightarrow> Inr (x # xs))"
| "join_from i (v # vs) =
     Inl (Exn ''TypeError'' (''sequence item '' @ show_nat i @
            '': expected str instance, '' @ type_name v @ '' found''))"

definition str_join :: "string \<Rightarrow> pyval list \<Rightarrow> exn + string" where
  "str_join sep vs =
     (case join_from 0 vs of Inl e \<Rightarrow> Inl e | Inr xs \<Rightarrow> Inr (join_strs sep xs))"

text \<open>
  The handler: the error descriptor goes to every level and the period becomes the short
  one, both after the join.  It returns the exception that leaves it, if any, and the period.
\<close>

definition mark_error :: "string \<Rightarrow> nat \<Rightarrow> 'a code_loader_scheme \<Rightarrow> 'a code_loader_scheme" where
  "mark_error e lvl s = (set_action lvl (''ERROR: '' @ e) s)\<lparr>error := True\<rparr>"

definition handler :: "exn \<Rightarrow> int \<Rightarrow> 'w machine \<Rightarrow> exn option \<times> int \<times> 'w machine" where
  "handler raised recheck_period s =
     (case str_join [CHR 0x0A] (exc_info raised) of
        Inl e \<Rightarrow> (Some e, recheck_period, s)
      | Inr e \<Rightarrow> (None, RECHECK_PERIOD_ON_ERROR_SEC, fold (mark_error e) [0 ..< max_level] s))"

text \<open>
  One iteration of the \<^verbatim>\<open>while\<close> loop of \<^verbatim>\<open>start\<close>: the \<^verbatim>\<open>try\<close> block, the handler when it
  raised, then the \<^verbatim>\<open>finally\<close> block, which sleeps for the current period
  (\<^verbatim>\<open>self.printer.stop()\<close> sets a flag of the printer thread only, and \<^verbatim>\<open>ENABLE_PRINTER\<close> is
  \<^verbatim>\<open>False\<close>).  An exception that leaves the handler leaves the loop after the sleep.
\<close>

definition nap :: "'w host \<Rightarrow> int \<Rightarrow> 'w machine \<Rightarrow> 'w machine" where
  "nap h n s = s\<lparr>world := sleep h n (world s), calls := calls s @ [EvSleep n]\<rparr>"

definition start_iteration ::
  "'w host \<Rightarrow> int \<Rightarrow> 'w machine \<Rightarrow> exn option \<times> int \<times> 'w machine" where
  "start_iteration h recheck_period s =
     (case cycle h s of
        (Inr u, s1) \<Rightarrow> (None, recheck_period, nap h recheck_period s1)
      | (Inl raised, s1) \<Rightarrow>
          (case handler raised recheck_period s1 of
             (escaped, period1, s2) \<Rightarrow> (escaped, period1, nap h period1 s2)))"

text \<open>
  The loop of \<^verbatim>\<open>start\<close>, for at most \<open>n\<close> iterations: it ends when shutdown is seen, or with
  the exception that left an iteration.
\<close>

datatype outcome = Shutdown | Crashed exn | Running

fun start_loop :: "'w host \<Rightarrow> nat \<Rightarrow> int \<Rightarrow> 'w machine \<Rightarrow> outcome \<times> int \<times> 'w machine" where
  "start_loop h 0 recheck_period s = (Running, recheck_period, s)"
| "start_loop h (Suc n) recheck_period s =
     (if is_shutdown h (world s) then (Shutdown, recheck_period, s)
      else case start_iteration h recheck_period s of
             (Some e, period1, s1) \<Rightarrow> (Crashed e, period1, s1)
           | (None, period1, s1) \<Rightarrow> start_loop h n period1 s1)"

definition start :: "'w host \<Rightarrow> nat \<Rightarrow> 'w machine \<Rightarrow> outcome \<times> int \<times> 'w machine" where
  "start h n s = start_loop h n RECHECK_PERIOD_SEC s"

section \<open>Hosts for the examples\<close>

text \<open>
  A host over the trivial world in which nothing raises.  It is given the archives, the
  manifests with their service images, the listing of \<^verbatim>\<open>docker images\<close> and the lines that
  every \<^verbatim>\<open>docker pull\<close> prints.
\<close>

definition quiet_host ::
  "string list \<Rightarrow> string list \<Rightarrow> (string \<times> string list) list \<Rightarrow> (string \<times> string list) list \<Rightarrow>
   string \<Rightarrow> string list \<Rightarrow> unit host" where
  "quiet_host tars tgzs to_load to_run listing pull_out =
     \<lparr>glob = (\<lambda>pat w.
         (Inr (if pat = ''/data/loader/images_to_load/*.tar'' then tars
               else if pat = ''/data/loader/images_to_load/*.tar.gz'' then tgzs
               else if pat = ''/data/loader/stacks_to_load/*.yaml'' then map fst to_load
               else if pat = ''/data/loader/stacks_to_run/*.yaml'' then map fst to_run
               else []), w)),
      stack_images = (\<lambda>f w.
         (case map_of (to_load @ to_run) f of
            Some images \<Rightarrow> Inr images
          | None \<Rightarrow> Inl (Exn ''FileNotFoundError'' f), w)),
      stat_size = (\<lambda>f w. (Inr 10, w)),
      docker_load = (\<lambda>f w. (([4, 6], Inr ''Loaded''), w)),
      docker_images = (\<lambda>w. (Inr listing, w)),
      docker_pull = (\<lambda>img w. (Inr pull_out, w)),
      compose_up = (\<lambda>n f w. (Inr (), w)),
      os_remove = (\<lambda>f w. (Inr (), w)),
      boot_log_write = (\<lambda>p m w. w),
      disable_service = (\<lambda>n w. (Inr (), w)),
      sleep = (\<lambda>n w. w),
      is_shutdown = (\<lambda>w. False)\<rparr>"

definition one_layer_pull :: "string list" where
  "one_layer_pull =
     [''latest: Pulling from library/app'',
      ''0123456789ab: Pulling fs layer'',
      ''0123456789ab: Download complete'',
      ''0123456789ab: Pull complete'',
      ''Status: Downloaded newer image'']"

text \<open>
  Scenario A of the specification: two uncompressed archives, no compressed one, one stack
  to run whose two services use two different images, the first of them present already.
\<close>

definition scenario_a :: "unit host" where
  "scenario_a =
     quiet_host [''/data/loader/images_to_load/a.tar'', ''/data/loader/images_to_load/b.tar''] [] []
       [(''/data/loader/stacks_to_run/web.yaml'', [''app/one:latest'', ''app/two:latest''])]
       (''app/one:latest'' @ [CHR 0x0A]) one_layer_pull"

section \<open>Invariants of programs\<close>

text \<open>
  \<open>preserves P m\<close>: whatever way \<open>m\<close> ends, normally or by an exception, \<open>P\<close> still holds.
  \<open>frame kt kn A P\<close>: \<open>P\<close> survives the stores to tick, action and output at levels from
  \<open>kt\<close> on, the stores to total at levels from \<open>kn\<close> on, and the host calls whose event
  satisfies \<open>A\<close>.
\<close>

definition preserves :: "('w machine \<Rightarrow> bool) \<Rightarrow> ('w, 'a) prog \<Rightarrow> bool" where
  "preserves P m \<longleftrightarrow> (\<forall>s r s1. P s \<longrightarrow> m s = (r, s1) \<longrightarrow> P s1)"

definition frame :: "nat \<Rightarrow> nat \<Rightarrow> (event \<Rightarrow> bool) \<Rightarrow> ('w machine \<Rightarrow> bool) \<Rightarrow> bool" where
  "frame kt kn A P \<longleftrightarrow>
     (\<forall>s. P s \<longrightarrow>
        (\<forall>l v. kn \<le> l \<longrightarrow> P (set_total l v s)) \<and>
        (\<forall>l v. kt \<le> l \<longrightarrow> P (set_tick l v s)) \<and>
        (\<forall>l a. kt \<le> l \<longrightarrow> P (set_action l a s)) \<and>
        (\<forall>l v. kt \<le> l \<longrightarrow> P (s\<lparr>output_lv := (output_lv s)[l := v]\<rparr>)) \<and>
        (\<forall>w ev. A ev \<longrightarrow> P (s\<lparr>world := w, calls := calls s @ [ev]\<rparr>)))"

text \<open>The layers that a list of output lines registers, and the number of its completion lines.\<close>

definition layer_of :: "string \<Rightarrow> string option" where
  "layer_of line = (case classify_line line of NewLayer i \<Rightarrow> Some i | _ \<Rightarrow> None)"

definition new_layers :: "string list \<Rightarrow> string set" where
  "new_layers lines = set (List.map_filter layer_of lines)"

definition completed_count :: "string list \<Rightarrow> int" where
  "completed_count lines = int (length (filter (\<lambda>line. classify_line line = Completed) lines))"

text \<open>
  A configuration with nothing staged, and one whose only stack to run has no image and
  whose bring-up cannot start (\<^verbatim>\<open>Popen\<close> raises when \<^verbatim>\<open>docker-compose\<close> is missing).
\<close>

definition nothing_staged :: "unit host" where
  "nothing_staged = quiet_host [] [] [] [] [] []"

definition bring_up_fails :: "unit host" where
  "bring_up_fails =
     (quiet_host [] [] [] [(''/data/loader/stacks_to_run/web.yaml'', [])] [] [])
       \<lparr>compose_up := (\<lambda>n f w. (Inl (Exn ''FileNotFoundError'' ''docker-compose''), w))\<rparr>"

(*DEFS*)

section \<open>Properties of the rounding\<close>

lemma pow2_powr: "pow2 e = 2 powr (of_int e)"
  by (simp add: pow2_def powr_real_of_int divide_inverse)

lemma pow2_pos [simp]: "0 < pow2 e"
  by (simp add: pow2_powr)

lemma pow2_add: "pow2 (a + b) = pow2 a * pow2 b"
  by (simp add: pow2_powr powr_add)

lemma pow2_nonneg_int: "0 \<le> e \<Longrightarrow> pow2 e = of_int (2 ^ nat e)"
  by (simp add: pow2_def)

lemma pow2_mono: "a \<le> b \<Longrightarrow> pow2 a \<le> pow2 b"
  by (simp add: pow2_powr)

lemma rhe_cases:
  "round_half_even m = \<lfloor>m\<rfloor> \<and> m - of_int \<lfloor>m\<rfloor> \<le> 1 / 2 \<or>
   round_half_even m = \<lfloor>m\<rfloor> + 1 \<and> 1 / 2 \<le> m - of_int \<lfloor>m\<rfloor>"
  unfolding round_half_even_def Let_def by auto

lemma rhe_le:
  assumes "m \<le> of_int N"
  shows "round_half_even m \<le> N"
proof -
  have f: "\<lfloor>m\<rfloor> \<le> N" using assms by (simp add: floor_le_iff)
  show ?thesis
  proof (rule disjE [OF rhe_cases [of m]])
    assume "round_half_even m = \<lfloor>m\<rfloor> \<and> m - of_int \<lfloor>m\<rfloor> \<le> 1 / 2"
    then show ?thesis using f by simp
  next
    assume a: "round_half_even m = \<lfloor>m\<rfloor> + 1 \<and> 1 / 2 \<le> m - of_int \<lfloor>m\<rfloor>"
    then have "of_int \<lfloor>m\<rfloor> < m" by linarith
    then have "of_int \<lfloor>m\<rfloor> < (of_int N :: real)" using assms by linarith
    then have "\<lfloor>m\<rfloor> < N" by simp
    then show ?thesis using a by simp
  qed
qed

lemma rhe_ge:
  assumes "of_int N \<le> m"
  shows "N \<le> round_half_even m"
proof -
  have f: "N \<le> \<lfloor>m\<rfloor>" using assms by (simp add: le_floor_iff)
  show ?thesis using rhe_cases [of m] f by auto
qed

lemma rhe_err: "\<bar>of_int (round_half_even m) - m\<bar> \<le> 1 / 2"
proof -
  have b: "of_int \<lfloor>m\<rfloor> \<le> m" "m < of_int \<lfloor>m\<rfloor> + 1" by linarith+
  show ?thesis
  proof (rule disjE [OF rhe_cases [of m]])
    assume a: "round_half_even m = \<lfloor>m\<rfloor> \<and> m - of_int \<lfloor>m\<rfloor> \<le> 1 / 2"
    then have "of_int (round_half_even m) - m = of_int \<lfloor>m\<rfloor> - m" by simp
    then show ?thesis using a b by linarith
  next
    assume a: "round_half_even m = \<lfloor>m\<rfloor> + 1 \<and> 1 / 2 \<le> m - of_int \<lfloor>m\<rfloor>"
    then have "of_int (round_half_even m) - m = of_int \<lfloor>m\<rfloor> + 1 - m" by simp
    then show ?thesis using a b by linarith
  qed
qed

lemma rhe_nonneg: "0 \<le> m \<Longrightarrow> 0 \<le> round_half_even m"
  using rhe_ge [of 0 m] by simp

lemma rhe_of_int [simp]: "round_half_even (of_int k) = k"
  using rhe_le [of "of_int k" k] rhe_ge [of k "of_int k"] by simp

section \<open>Bounds of the rounding\<close>

lemma rnd_zero [simp]: "rnd 0 = 0"
  by (simp add: rnd_def)

lemma rnd_pos_eq:
  "0 < x \<Longrightarrow> rnd x = of_int (round_half_even (x / pow2 (ulp_exp x))) * pow2 (ulp_exp x)"
  by (simp add: rnd_def)

lemma rnd_nonneg: "0 \<le> x \<Longrightarrow> 0 \<le> rnd x"
proof (cases "x = 0")
  case False
  assume "0 \<le> x"
  then have x: "0 < x" using False by simp
  have "0 \<le> x / pow2 (ulp_exp x)" using x by (simp add: less_imp_le)
  then have "0 \<le> round_half_even (x / pow2 (ulp_exp x))" by (rule rhe_nonneg)
  then show ?thesis using x by (simp add: rnd_pos_eq less_imp_le)
qed simp

text \<open>A bound that lies on the grid of the argument's binade is respected.\<close>

lemma rnd_le_grid:
  assumes x: "0 < x" and le: "x \<le> b" and grid: "b = of_int k * pow2 (ulp_exp x)"
  shows "rnd x \<le> b"
proof -
  have "x / pow2 (ulp_exp x) \<le> of_int k"
    using le grid by (simp add: pos_divide_le_eq)
  then have "round_half_even (x / pow2 (ulp_exp x)) \<le> k" by (rule rhe_le)
  then have "of_int (round_half_even (x / pow2 (ulp_exp x))) * pow2 (ulp_exp x) \<le> of_int k * pow2 (ulp_exp x)"
    by (simp add: mult_right_mono less_imp_le)
  then show ?thesis using x grid by (simp add: rnd_pos_eq)
qed

lemma rnd_ge_grid:
  assumes x: "0 < x" and le: "b \<le> x" and grid: "b = of_int k * pow2 (ulp_exp x)"
  shows "b \<le> rnd x"
proof -
  have "of_int k \<le> x / pow2 (ulp_exp x)"
    using le grid by (simp add: pos_le_divide_eq)
  then have "k \<le> round_half_even (x / pow2 (ulp_exp x))" by (rule rhe_ge)
  then have "of_int k * pow2 (ulp_exp x) \<le> of_int (round_half_even (x / pow2 (ulp_exp x))) * pow2 (ulp_exp x)"
    by (simp add: mult_right_mono less_imp_le)
  then show ?thesis using x grid by (simp add: rnd_pos_eq)
qed

lemma rnd_err:
  assumes x: "0 < x"
  shows "\<bar>rnd x - x\<bar> \<le> pow2 (ulp_exp x) / 2"
proof -
  define p where "p = pow2 (ulp_exp x)"
  have p: "0 < p" by (simp add: p_def)
  define m where "m = x / p"
  have xm: "x = m * p" using p by (simp add: m_def)
  have r: "rnd x = of_int (round_half_even m) * p"
    using x by (simp add: rnd_pos_eq p_def m_def)
  have "rnd x - x = (of_int (round_half_even m) - m) * p"
  proof -
    have "rnd x - x = of_int (round_half_even m) * p - m * p" using r xm by linarith
    then show ?thesis by (simp add: algebra_simps)
  qed
  then have "\<bar>rnd x - x\<bar> = \<bar>of_int (round_half_even m) - m\<bar> * p"
    using p by (simp add: abs_mult)
  also have "\<dots> \<le> (1 / 2) * p"
    using rhe_err [of m] p by (intro mult_right_mono) simp_all
  finally show ?thesis by (simp add: p_def)
qed

text \<open>The exponent of the last place.\<close>

lemma floorlog2_bounds:
  assumes "0 < n"
  shows "2 ^ (floorlog 2 n - 1) \<le> n" "n < 2 ^ floorlog 2 n" "0 < floorlog 2 n"
proof -
  show 1: "2 ^ (floorlog 2 n - 1) \<le> n" and 2: "n < 2 ^ floorlog 2 n"
    using floorlog_bounds [where b = 2 and x = n] assms by simp_all
  show "0 < floorlog 2 n"
  proof (rule ccontr)
    assume "\<not> 0 < floorlog 2 n"
    then have "floorlog 2 n = 0" by simp
    then show False using 2 assms by simp
  qed
qed

lemma binary_exponent_eq:
  assumes x: "0 < x"
  shows "binary_exponent x = \<lfloor>log 2 x\<rfloor>"
proof (cases "1 \<le> x")
  case True
  define n where "n = nat \<lfloor>x\<rfloor>"
  define F where "F = floorlog 2 n"
  have fx: "1 \<le> \<lfloor>x\<rfloor>" using True by (simp add: le_floor_iff)
  then have n: "0 < n" "real n = of_int \<lfloor>x\<rfloor>" by (simp_all add: n_def)
  note b = floorlog2_bounds [OF n(1), folded F_def]
  have lo: "2 ^ (F - 1) \<le> x"
  proof -
    have "real (2 ^ (F - 1)) \<le> real n" using b(1) by (simp only: of_nat_le_iff)
    moreover have "real n \<le> x" unfolding n(2) by (rule of_int_floor_le)
    ultimately have "real (2 ^ (F - 1)) \<le> x" by linarith
    then show ?thesis by simp
  qed
  have hi: "x < 2 ^ F"
  proof -
    have "n + 1 \<le> 2 ^ F" using b(2) by simp
    then have "real (n + 1) \<le> real (2 ^ F)" by (simp only: of_nat_le_iff)
    moreover have "x < real n + 1" unfolding n(2) by linarith
    ultimately have "x < real (2 ^ F)" by simp
    then show ?thesis by simp
  qed
  have e1: "real_of_int (int F - 1) = real (F - 1)" using b(3) by (simp add: of_nat_diff)
  have p1: "2 powr real_of_int (int F - 1) = 2 ^ (F - 1)"
    unfolding e1 by (rule powr_realpow) simp
  have e2: "real_of_int (int F - 1) + 1 = real F" using b(3) by simp
  have p2: "2 powr (real_of_int (int F - 1) + 1) = 2 ^ F"
    unfolding e2 by (rule powr_realpow) simp
  have "2 powr real_of_int (int F - 1) \<le> x \<and> x < 2 powr (real_of_int (int F - 1) + 1)"
    unfolding p1 p2 using lo hi by simp
  then have "\<lfloor>log 2 x\<rfloor> = int F - 1"
    using floor_log_eq_powr_iff [of x 2 "int F - 1"] x by simp
  then show ?thesis using True by (simp add: binary_exponent_def bitlen_def F_def n_def)
next
  case False
  define y where "y = 1 / x"
  define n where "n = nat (\<lceil>y\<rceil> - 1)"
  define F where "F = floorlog 2 n"
  have y: "1 < y" using False x by (simp add: y_def)
  then have cy: "2 \<le> \<lceil>y\<rceil>" by (simp add: le_ceiling_iff)
  then have n: "0 < n" "real n = of_int \<lceil>y\<rceil> - 1" by (simp_all add: n_def)
  note b = floorlog2_bounds [OF n(1), folded F_def]
  have hi: "y \<le> 2 ^ F"
  proof -
    have "n + 1 \<le> 2 ^ F" using b(2) by simp
    then have "real (n + 1) \<le> real (2 ^ F)" by (simp only: of_nat_le_iff)
    moreover have "y \<le> real n + 1" unfolding n(2) by simp
    ultimately have "y \<le> real (2 ^ F)" by simp
    then show ?thesis by simp
  qed
  have lo: "2 ^ (F - 1) < y"
  proof -
    have "real (2 ^ (F - 1)) \<le> real n" using b(1) by (simp only: of_nat_le_iff)
    moreover have "real n < y" unfolding n(2) by linarith
    ultimately have "real (2 ^ (F - 1)) < y" by linarith
    then show ?thesis by simp
  qed
  have pw: "2 powr (- real k) = 1 / 2 ^ k" for k
    unfolding powr_minus_divide by (subst powr_realpow) simp_all
  have e1: "real_of_int (- int F) = - real F" by simp
  have p1: "2 powr real_of_int (- int F) = 1 / 2 ^ F"
    unfolding e1 by (rule pw)
  have e2: "real_of_int (- int F) + 1 = - real (F - 1)" using b(3) by (simp add: of_nat_diff)
  have p2: "2 powr (real_of_int (- int F) + 1) = 1 / 2 ^ (F - 1)"
    unfolding e2 by (rule pw)
  have xy: "x = 1 / y" using x by (simp add: y_def)
  have a1: "1 / 2 ^ F \<le> x"
    unfolding xy using hi y by (simp add: field_simps)
  have a2: "x < 1 / 2 ^ (F - 1)"
    unfolding xy using lo y by (simp add: field_simps)
  have "2 powr real_of_int (- int F) \<le> x \<and> x < 2 powr (real_of_int (- int F) + 1)"
    unfolding p1 p2 using a1 a2 by simp
  then have "\<lfloor>log 2 x\<rfloor> = - int F"
    using floor_log_eq_powr_iff [of x 2 "- int F"] x by simp
  then show ?thesis using False by (simp add: binary_exponent_def bitlen_def F_def n_def y_def)
qed

lemma ulp_exp_pos: "0 < x \<Longrightarrow> ulp_exp x = max \<lfloor>log 2 x\<rfloor> (- 1022) - 52"
  by (simp add: ulp_exp_def binary_exponent_eq)


lemma ulp_exp_le:
  assumes "0 < x" "x < pow2 k" "- 1021 \<le> k"
  shows "ulp_exp x \<le> k - 53"
proof -
  have "log 2 x < of_int k"
    using assms by (simp add: pow2_powr log_less_iff)
  then have "\<lfloor>log 2 x\<rfloor> < k" by (simp add: floor_less_iff)
  then show ?thesis using assms by (simp add: ulp_exp_pos)
qed

lemma ulp_exp_ge:
  assumes "0 < x" "pow2 k \<le> x"
  shows "k - 52 \<le> ulp_exp x"
proof -
  have "of_int k \<le> log 2 x"
    using assms by (simp add: pow2_powr le_log_iff)
  then have "k \<le> \<lfloor>log 2 x\<rfloor>" by (simp add: le_floor_iff)
  then show ?thesis using assms by (simp add: ulp_exp_pos)
qed

lemma ulp_exp_eq:
  assumes "pow2 k \<le> x" "x < pow2 (k + 1)" "- 1022 \<le> k"
  shows "ulp_exp x = k - 52"
proof -
  have x: "0 < x" using assms(1) pow2_pos [of k] by linarith
  have "\<lfloor>log 2 x\<rfloor> = k"
    using assms x by (simp add: floor_log_eq_powr_iff pow2_powr)
  then show ?thesis using assms x by (simp add: ulp_exp_pos)
qed

lemma pow2_split: "e \<le> a \<Longrightarrow> pow2 a = of_int (2 ^ nat (a - e)) * pow2 e"
proof -
  assume "e \<le> a"
  have "pow2 a = pow2 ((a - e) + e)" by simp
  also have "\<dots> = pow2 (a - e) * pow2 e" by (rule pow2_add)
  also have "pow2 (a - e) = of_int (2 ^ nat (a - e))"
    using \<open>e \<le> a\<close> by (simp add: pow2_nonneg_int)
  finally show ?thesis .
qed

lemma on_grid: "e \<le> a \<Longrightarrow> of_int j * pow2 a = of_int (j * 2 ^ nat (a - e)) * pow2 e"
  using pow2_split [of e a] by simp

lemma rnd_le_dyadic:
  assumes "0 \<le> x" "x < pow2 K" "- 1021 \<le> K" "K - 53 \<le> a" "x \<le> of_int j * pow2 a"
  shows "rnd x \<le> of_int j * pow2 a"
proof (cases "x = 0")
  case True
  then show ?thesis using assms(5) by simp
next
  case False
  then have x: "0 < x" using assms(1) by simp
  have e: "ulp_exp x \<le> a" using ulp_exp_le [OF x assms(2,3)] assms(4) by linarith
  show ?thesis by (rule rnd_le_grid [OF x assms(5) on_grid [OF e]])
qed

lemma rnd_ge_dyadic:
  assumes "0 \<le> x" "x < pow2 K" "- 1021 \<le> K" "K - 53 \<le> a" "of_int j * pow2 a \<le> x"
  shows "of_int j * pow2 a \<le> rnd x"
proof (cases "x = 0")
  case True
  then show ?thesis using assms(5) by simp
next
  case False
  then have x: "0 < x" using assms(1) by simp
  have e: "ulp_exp x \<le> a" using ulp_exp_le [OF x assms(2,3)] assms(4) by linarith
  show ?thesis by (rule rnd_ge_grid [OF x assms(5) on_grid [OF e]])
qed

lemma pow2_0 [simp]: "pow2 0 = 1"
  by (simp add: pow2_def)

lemma pow2_numeral: "pow2 (numeral n) = 2 ^ numeral n"
  by (simp add: pow2_def)

lemma rnd_le_int:
  assumes "0 \<le> x" "x < 2 ^ 53" "x \<le> of_int N"
  shows "rnd x \<le> of_int N"
  using rnd_le_dyadic [of x 53 0 N] assms by (simp add: pow2_numeral)

lemma rnd_ge_int:
  assumes "0 \<le> x" "x < 2 ^ 53" "of_int N \<le> x"
  shows "of_int N \<le> rnd x"
  using rnd_ge_dyadic [of x 53 0 N] assms by (simp add: pow2_numeral)

lemma rnd_of_int:
  assumes "0 \<le> k" "k < 2 ^ 53"
  shows "rnd (of_int k) = of_int k"
proof -
  have 1: "(0::real) \<le> of_int k" "(of_int k :: real) < 2 ^ 53"
    using assms by simp_all
  show ?thesis
    using rnd_le_int [OF 1, of k] rnd_ge_int [OF 1, of k] by simp
qed

lemma rnd_abs_err:
  assumes "0 \<le> x" "x < pow2 K" "- 1021 \<le> K"
  shows "\<bar>rnd x - x\<bar> \<le> pow2 (K - 54)"
proof (cases "x = 0")
  case True
  then show ?thesis by (simp add: less_imp_le)
next
  case False
  then have x: "0 < x" using assms(1) by simp
  have "ulp_exp x \<le> K - 53" by (rule ulp_exp_le [OF x assms(2,3)])
  then have "pow2 (ulp_exp x) \<le> pow2 (K - 53)" by (rule pow2_mono)
  moreover have "pow2 (K - 53) = 2 * pow2 (K - 54)"
    using pow2_add [of 1 "K - 54"] by (simp add: pow2_def)
  ultimately show ?thesis using rnd_err [OF x] by linarith
qed

text \<open>Rounding never falls below the power of two under the argument.\<close>

lemma rnd_ge_pow2:
  assumes "pow2 j \<le> x" "- 1022 \<le> j"
  shows "pow2 j \<le> rnd x"
proof -
  have x: "0 < x" using assms(1) pow2_pos [of j] by linarith
  define L where "L = \<lfloor>log 2 x\<rfloor>"
  have Lx: "pow2 L \<le> x" "x < pow2 (L + 1)"
    using floor_log_eq_powr_iff [of x 2 L] x by (simp_all add: L_def pow2_powr)
  have "of_int j \<le> log 2 x" using assms x by (simp add: pow2_powr le_log_iff)
  then have jL: "j \<le> L" by (simp add: L_def le_floor_iff)
  then have e: "ulp_exp x = L - 52" using assms(2) x by (simp add: ulp_exp_pos L_def)
  have "pow2 L = of_int (2 ^ nat (L - (L - 52))) * pow2 (L - 52)"
    by (rule pow2_split) simp
  then have grid: "pow2 L = of_int (2 ^ 52) * pow2 (ulp_exp x)" by (simp add: e)
  have "pow2 L \<le> rnd x" by (rule rnd_ge_grid [OF x Lx(1) grid])
  moreover have "pow2 j \<le> pow2 L" using jL by (rule pow2_mono)
  ultimately show ?thesis by linarith
qed

section \<open>The arithmetic of the aggregator\<close>

lemma chain_Inr [simp]: "chain (Inr x) f = f x"
  by (simp add: chain_def)

lemma chain_Inl [simp]: "chain (Inl e) f = Inl e"
  by (simp add: chain_def)

lemma float_result_finite: "\<bar>rnd x\<bar> < 2 ^ 1024 \<Longrightarrow> float_result msg x = Inr (rnd x)"
  by (simp add: float_result_def)

lemma float_result_small:
  assumes "0 \<le> x" "x < 2 ^ 53"
  shows "float_result msg x = Inr (rnd x)"
proof -
  have "x \<le> of_int (2 ^ 53)" using assms by simp
  then have "rnd x \<le> of_int (2 ^ 53)" by (rule rnd_le_int [OF assms])
  moreover have "0 \<le> rnd x" using assms(1) by (rule rnd_nonneg)
  ultimately have "\<bar>rnd x\<bar> < 2 ^ 1024" by simp
  then show ?thesis by (rule float_result_finite)
qed

lemma percentage_value:
  assumes "0 \<le> partial" "0 \<le> n"
  defines "n1 \<equiv> (if n = 0 then 1 else n)"
  defines "q \<equiv> rnd (real_of_int (min partial n1) / real_of_int n1)"
  shows "percentage partial n = Inr \<lfloor>rnd (q * 100)\<rfloor>"
    and "0 \<le> q" and "q \<le> 1" and "0 \<le> rnd (q * 100)" and "rnd (q * 100) \<le> 100"
proof -
  define x where "x = real_of_int (min partial n1) / real_of_int n1"
  have n1: "1 \<le> n1" using assms(2) by (simp add: n1_def)
  have x: "0 \<le> x" "x \<le> 1"
    using n1 assms(1) by (simp_all add: x_def min_def)
  have x53: "x < 2 ^ 53" using x by simp
  have q: "0 \<le> q" "q \<le> 1"
    using rnd_nonneg [OF x(1)] rnd_le_int [OF x(1) x53, of 1] x(2)
    by (simp_all add: q_def x_def)
  show "0 \<le> q" "q \<le> 1" by (rule q)+
  have d: "int_truediv (min partial n1) n1 = Inr q"
    using n1 float_result_small [OF x(1) x53]
    by (simp add: int_truediv_def q_def x_def)
  have y: "0 \<le> q * 100" "q * 100 < 2 ^ 53" "q * 100 \<le> of_int 100"
    using q by simp_all
  have m: "float_mul q 100 = Inr (rnd (q * 100))"
    using float_result_small [OF y(1,2)] by (simp add: float_mul_def)
  show r: "0 \<le> rnd (q * 100)" "rnd (q * 100) \<le> 100"
    using rnd_nonneg [OF y(1)] rnd_le_int [OF y] by simp_all
  show "percentage partial n = Inr \<lfloor>rnd (q * 100)\<rfloor>"
    using d m r by (simp add: percentage_def Let_def n1_def py_int_def)
qed

lemma percentage_returns:
  assumes "0 \<le> partial" "0 \<le> n"
  shows "\<exists>b. percentage partial n = Inr b \<and> 0 \<le> b \<and> b \<le> 100"
proof -
  note v = percentage_value [OF assms]
  have "0 \<le> \<lfloor>rnd (rnd (real_of_int (min partial (if n = 0 then 1 else n)) /
          real_of_int (if n = 0 then 1 else n)) * 100)\<rfloor>"
    using v(4) by simp
  moreover have "\<lfloor>rnd (rnd (real_of_int (min partial (if n = 0 then 1 else n)) /
          real_of_int (if n = 0 then 1 else n)) * 100)\<rfloor> \<le> 100"
    using v(5) by (simp add: floor_le_iff)
  ultimately show ?thesis using v(1) by blast
qed

lemma div_gap:
  fixes a n :: int
  assumes "0 < n"
  shows "real_of_int a / real_of_int n \<le> real_of_int (a div n) + 1 - 1 / real_of_int n"
proof -
  have "a mod n < n" using assms by simp
  then have "a mod n \<le> n - 1" by simp
  then have "a \<le> (a div n) * n + (n - 1)"
    using div_mult_mod_eq [of a n] by linarith
  then have "real_of_int a \<le> real_of_int ((a div n) * n + (n - 1))"
    by (simp only: of_int_le_iff)
  then have "real_of_int a \<le> (real_of_int (a div n) + 1 - 1 / real_of_int n) * real_of_int n"
    using assms by (simp add: algebra_simps)
  then show ?thesis using assms by (simp add: pos_divide_le_eq)
qed

lemma small_errors: "100 * pow2 (- 53) + pow2 (- 47) < (1 / 100 :: real)"
  by (simp add: pow2_def)

lemma floor_le_of_gap:
  fixes y :: real and k n :: int
  assumes "y \<le> real_of_int k + 1 - 1 / real_of_int n + d" "0 < n" "n \<le> 100" "d < 1 / 100"
  shows "\<lfloor>y\<rfloor> \<le> k"
proof -
  have "1 / 100 \<le> 1 / real_of_int n"
    using assms(2,3) by (simp add: field_simps)
  then have "y < real_of_int (k + 1)" using assms(1,4) by simp
  then have "\<lfloor>y\<rfloor> < k + 1" by (simp only: floor_less_iff)
  then show ?thesis by simp
qed

lemma percentage_le_div:
  assumes "0 \<le> t" "t < n" "n \<le> 100" "percentage t n = Inr b"
  shows "b \<le> t * 100 div n"
proof -
  have n: "0 < n" "0 \<le> n" "n \<noteq> 0" using assms(1,2) by simp_all
  define x where "x = real_of_int t / real_of_int n"
  define q where "q = rnd x"
  have mn: "real_of_int (min t (if n = 0 then 1 else n)) / real_of_int (if n = 0 then 1 else n) = x"
    using assms(2) n by (simp add: x_def)
  note v = percentage_value [OF assms(1) n(2), unfolded mn, folded q_def]
  have b: "b = \<lfloor>rnd (q * 100)\<rfloor>" using v(1) assms(4) by simp
  have x: "0 \<le> x" "x < pow2 0"
    using assms(1,2) n by (simp_all add: x_def)
  have eq: "\<bar>q - x\<bar> \<le> pow2 (- 54)"
    using rnd_abs_err [OF x] by (simp add: q_def)
  have y: "0 \<le> q * 100" "q * 100 < pow2 7"
    using v(2,3) by (simp_all add: pow2_def)
  have ey: "\<bar>rnd (q * 100) - q * 100\<bar> \<le> pow2 (- 47)"
    using rnd_abs_err [OF y] by simp
  have "rnd (q * 100) \<le> 100 * x + (100 * pow2 (- 54) + pow2 (- 47))"
    using eq ey by linarith
  moreover have "100 * x = real_of_int (t * 100) / real_of_int n"
    by (simp add: x_def)
  moreover have "real_of_int (t * 100) / real_of_int n \<le>
      real_of_int (t * 100 div n) + 1 - 1 / real_of_int n"
    by (rule div_gap [OF n(1)])
  ultimately have h1: "rnd (q * 100) \<le>
      real_of_int (t * 100 div n) + 1 - 1 / real_of_int n + (100 * pow2 (- 54) + pow2 (- 47))"
    by linarith
  have h2: "100 * pow2 (- 54) + pow2 (- 47) < (1 / 100 :: real)"
    by (simp add: pow2_def)
  show ?thesis
    unfolding b by (rule floor_le_of_gap [OF h1 n(1) assms(3) h2])
qed

lemma substep_value:
  assumes n: "0 < n" "n < 2 ^ 1023" and c: "0 \<le> c" "c < 2 ^ 53"
  defines "r \<equiv> rnd (1 / rnd (real_of_int n))"
  shows "substep c n = Inr \<lfloor>rnd (real_of_int c * r)\<rfloor>"
    and "1 \<le> rnd (real_of_int n)" and "0 \<le> r" and "r \<le> 1"
    and "0 \<le> rnd (real_of_int c * r)" and "rnd (real_of_int c * r) \<le> real_of_int c"
proof -
  define f where "f = rnd (real_of_int n)"
  have nr: "pow2 0 \<le> real_of_int n" "0 \<le> real_of_int n" "real_of_int n < pow2 1023"
    using n by (simp_all add: pow2_def)
  have f1: "1 \<le> f" using rnd_ge_pow2 [OF nr(1)] by (simp add: f_def)
  have "real_of_int n \<le> of_int 1 * pow2 1023" using nr(3) by simp
  then have "f \<le> of_int 1 * pow2 1023"
    unfolding f_def by (intro rnd_le_dyadic [OF nr(2,3)]) simp_all
  then have "\<bar>f\<bar> < 2 ^ 1024" using f1 by (simp add: pow2_def)
  then have fi: "float_of_int n = Inr f"
    by (simp add: float_of_int_def f_def float_result_finite)
  have x: "0 \<le> 1 / f" "1 / f < 2 ^ 53" "1 / f \<le> of_int 1"
    using f1 by (simp_all add: field_simps)
  have r: "0 \<le> r" "r \<le> 1"
    using rnd_nonneg [OF x(1)] rnd_le_int [OF x] by (simp_all add: r_def f_def)
  have fd: "float_div 1 f = Inr r"
    using f1 float_result_small [OF x(1,2)] by (simp add: float_div_def r_def f_def)
  have cr: "0 \<le> real_of_int c" "real_of_int c < 2 ^ 53" using c by simp_all
  have fc: "float_of_int c = Inr (real_of_int c)"
    using float_result_small [OF cr] rnd_of_int [OF c] by (simp add: float_of_int_def)
  have z3: "real_of_int c * r \<le> real_of_int c" by (rule mult_left_le [OF r(2) cr(1)])
  have z: "0 \<le> real_of_int c * r" "real_of_int c * r < 2 ^ 53" "real_of_int c * r \<le> of_int c"
    using cr r z3 by simp_all
  have fm: "float_mul (real_of_int c) r = Inr (rnd (real_of_int c * r))"
    using float_result_small [OF z(1,2)] by (simp add: float_mul_def)
  show "substep c n = Inr \<lfloor>rnd (real_of_int c * r)\<rfloor>"
    using fi fd fc fm by (simp add: substep_def)
  show "1 \<le> rnd (real_of_int n)" using f1 by (simp add: f_def)
  show "0 \<le> r" "r \<le> 1" by (rule r)+
  show "0 \<le> rnd (real_of_int c * r)" by (rule rnd_nonneg [OF z(1)])
  show "rnd (real_of_int c * r) \<le> real_of_int c" using rnd_le_int [OF z] by simp
qed

lemma rnd_big_int:
  assumes "100 < n"
  shows "101 \<le> rnd (real_of_int n)"
proof (cases "n < 2 ^ 53")
  case True
  then have "rnd (real_of_int n) = real_of_int n" using assms by (intro rnd_of_int) simp_all
  then show ?thesis using assms by simp
next
  case False
  then have "(2::int) ^ 53 \<le> n" by simp
  then have "real_of_int (2 ^ 53) \<le> real_of_int n" by (simp only: of_int_le_iff)
  then have "pow2 53 \<le> real_of_int n" by (simp add: pow2_def)
  then have "pow2 53 \<le> rnd (real_of_int n)" by (rule rnd_ge_pow2) simp
  then show ?thesis by (simp add: pow2_def)
qed

lemma substep_zero:
  assumes "100 < n" "n < 2 ^ 1023" "0 \<le> c" "c \<le> 100"
  shows "substep c n = Inr 0"
proof -
  have n: "0 < n" using assms(1) by simp
  have c: "c < 2 ^ 53" using assms(4) by simp
  define f where "f = rnd (real_of_int n)"
  define r where "r = rnd (1 / f)"
  note v = substep_value [OF n assms(2,3) c, folded f_def, folded r_def]
  have f: "101 \<le> f" unfolding f_def by (rule rnd_big_int [OF assms(1)])
  have x: "0 \<le> 1 / f" "1 / f < pow2 (- 6)" "1 / f \<le> of_int 325 * pow2 (- 15)"
    using f by (simp_all add: pow2_def field_simps)
  have r: "r \<le> of_int 325 * pow2 (- 15)"
    unfolding r_def by (rule rnd_le_dyadic [OF x(1,2) _ _ x(3)]) simp_all
  have "real_of_int c * r \<le> 100 * (of_int 325 * pow2 (- 15))"
    using assms(3,4) r v(3) by (intro mult_mono) simp_all
  then have y: "0 \<le> real_of_int c * r" "real_of_int c * r < pow2 0"
    "real_of_int c * r \<le> of_int 32500 * pow2 (- 15)"
    using assms(3) v(3) by (simp_all add: pow2_def)
  have "rnd (real_of_int c * r) \<le> of_int 32500 * pow2 (- 15)"
    by (rule rnd_le_dyadic [OF y(1,2) _ _ y(3)]) simp_all
  then have "rnd (real_of_int c * r) < 1" by (simp add: pow2_def)
  then have "\<lfloor>rnd (real_of_int c * r)\<rfloor> = 0" using v(5) by (simp add: floor_eq_iff)
  then show ?thesis using v(1) by simp
qed

lemma substep_le_div:
  assumes "0 < n" "n \<le> 100" "0 \<le> c" "c \<le> 100" "substep c n = Inr d"
  shows "0 \<le> d \<and> d \<le> c div n"
proof -
  have n: "n < 2 ^ 1023" "0 \<le> n" "n < 2 ^ 53" using assms(1,2) by simp_all
  have c: "c < 2 ^ 53" using assms(4) by simp
  define r where "r = rnd (1 / real_of_int n)"
  have fn: "rnd (real_of_int n) = real_of_int n" by (rule rnd_of_int [OF n(2,3)])
  note v = substep_value [OF assms(1) n(1) assms(3) c, unfolded fn, folded r_def]
  have d: "d = \<lfloor>rnd (real_of_int c * r)\<rfloor>" using v(1) assms(5) by simp
  have x: "0 \<le> 1 / real_of_int n" "1 / real_of_int n < pow2 1"
    using assms(1) by (simp_all add: pow2_def field_simps)
  have er: "\<bar>r - 1 / real_of_int n\<bar> \<le> pow2 (- 53)"
    using rnd_abs_err [OF x] by (simp add: r_def)
  have cr: "0 \<le> real_of_int c" "real_of_int c \<le> 100" using assms(3,4) by simp_all
  have "real_of_int c * r \<le> real_of_int c * (1 / real_of_int n + pow2 (- 53))"
    using er cr(1) by (intro mult_left_mono) linarith+
  also have "\<dots> = real_of_int c / real_of_int n + real_of_int c * pow2 (- 53)"
    by (simp add: algebra_simps)
  also have "\<dots> \<le> real_of_int c / real_of_int n + 100 * pow2 (- 53)"
    using cr(2) by (simp add: mult_right_mono less_imp_le)
  finally have up: "real_of_int c * r \<le> real_of_int c / real_of_int n + 100 * pow2 (- 53)" .
  have "real_of_int c * r \<le> 100 * 1" using cr v(3,4) by (intro mult_mono) simp_all
  then have y: "0 \<le> real_of_int c * r" "real_of_int c * r < pow2 7"
    using cr(1) v(3) by (simp_all add: pow2_def)
  have ey: "\<bar>rnd (real_of_int c * r) - real_of_int c * r\<bar> \<le> pow2 (- 47)"
    using rnd_abs_err [OF y] by simp
  have gap: "real_of_int c / real_of_int n \<le> real_of_int (c div n) + 1 - 1 / real_of_int n"
    by (rule div_gap [OF assms(1)])
  have h1: "rnd (real_of_int c * r) \<le>
      real_of_int (c div n) + 1 - 1 / real_of_int n + (100 * pow2 (- 53) + pow2 (- 47))"
    using up ey gap by linarith
  have "d \<le> c div n"
    unfolding d by (rule floor_le_of_gap [OF h1 assms(1,2) small_errors])
  moreover have "0 \<le> d" unfolding d using v(5) by simp
  ultimately show ?thesis by simp
qed

text \<open>
  Some values, as the interpreter computes them: the rounding of the two operations shows
  in the first two, the third rounds up to the full percentage, and a total that no double
  holds raises.
\<close>

lemma rnd_eval:
  assumes "pow2 k \<le> x" "x < pow2 (k + 1)" "- 1022 \<le> k"
  shows "rnd x = of_int (round_half_even (x / pow2 (k - 52))) * pow2 (k - 52)"
proof -
  have x: "0 < x" using assms(1) pow2_pos [of k] by linarith
  show ?thesis using rnd_pos_eq [OF x] ulp_exp_eq [OF assms] by simp
qed

lemma rhe_down: "of_int f \<le> m \<Longrightarrow> m < of_int f + 1 / 2 \<Longrightarrow> round_half_even m = f"
proof -
  assume a: "of_int f \<le> m" "m < of_int f + 1 / 2"
  then have "\<lfloor>m\<rfloor> = f" by (simp add: floor_eq_iff)
  then show ?thesis using a by (simp add: round_half_even_def)
qed

lemma rhe_up: "of_int f + 1 / 2 < m \<Longrightarrow> m < of_int f + 1 \<Longrightarrow> round_half_even m = f + 1"
proof -
  assume a: "of_int f + 1 / 2 < m" "m < of_int f + 1"
  then have "\<lfloor>m\<rfloor> = f" by (simp add: floor_eq_iff)
  then show ?thesis using a by (simp add: round_half_even_def)
qed

lemma percentage_29_100: "percentage 29 100 = Inr 28"
proof -
  have q: "rnd (29 / 100) = 5224175567749775 * pow2 (- 54)"
  proof -
    have "rnd (29 / 100) = of_int (round_half_even (29 / 100 / pow2 (- 2 - 52))) * pow2 (- 2 - 52)"
      by (rule rnd_eval) (simp_all add: pow2_def)
    moreover have "round_half_even (29 / 100 / pow2 (- 2 - 52)) = 5224175567749775"
      by (rule rhe_down) (simp_all add: pow2_def)
    ultimately show ?thesis by simp
  qed
  have y: "rnd (5224175567749775 * pow2 (- 54) * 100) = 8162774324609023 * pow2 (- 48)"
  proof -
    have "rnd (5224175567749775 * pow2 (- 54) * 100) =
        of_int (round_half_even (5224175567749775 * pow2 (- 54) * 100 / pow2 (4 - 52))) * pow2 (4 - 52)"
      by (rule rnd_eval) (simp_all add: pow2_def)
    moreover have "round_half_even (5224175567749775 * pow2 (- 54) * 100 / pow2 (4 - 52)) = 8162774324609023"
      by (rule rhe_down) (simp_all add: pow2_def)
    ultimately show ?thesis by simp
  qed
  have fl: "\<lfloor>8162774324609023 * pow2 (- 48)\<rfloor> = 28"
    by (simp add: floor_eq_iff pow2_def)
  show ?thesis
    using percentage_value(1) [of 29 100] q y fl by simp
qed


lemma substep_49_49: "substep 49 49 = Inr 0"
proof -
  have f: "rnd (real_of_int 49) = real_of_int 49" by (rule rnd_of_int) simp_all
  have r: "rnd (1 / 49) = 5882252574524729 * pow2 (- 58)"
  proof -
    have "rnd (1 / 49) = of_int (round_half_even (1 / 49 / pow2 (- 6 - 52))) * pow2 (- 6 - 52)"
      by (rule rnd_eval) (simp_all add: pow2_def)
    moreover have "round_half_even (1 / 49 / pow2 (- 6 - 52)) = 5882252574524729"
      by (rule rhe_down) (simp_all add: pow2_def)
    ultimately show ?thesis by simp
  qed
  have z: "rnd (49 * (5882252574524729 * pow2 (- 58))) = 9007199254740991 * pow2 (- 53)"
  proof -
    have "rnd (49 * (5882252574524729 * pow2 (- 58))) =
        of_int (round_half_even (49 * (5882252574524729 * pow2 (- 58)) / pow2 (- 1 - 52))) * pow2 (- 1 - 52)"
      by (rule rnd_eval) (simp_all add: pow2_def)
    moreover have "round_half_even (49 * (5882252574524729 * pow2 (- 58)) / pow2 (- 1 - 52)) = 9007199254740991"
      by (rule rhe_down) (simp_all add: pow2_def)
    ultimately show ?thesis by simp
  qed
  have fl: "\<lfloor>9007199254740991 * pow2 (- 53)\<rfloor> = 0"
    by (simp add: floor_eq_iff pow2_def)
  show ?thesis
    using substep_value(1) [of 49 49] f r z fl by simp
qed

lemma percentage_near_one: "percentage (10 ^ 17 - 1) (10 ^ 17) = Inr 100"
proof -
  have q: "rnd (real_of_int (10 ^ 17 - 1) / real_of_int (10 ^ 17)) = 1"
  proof -
    have "rnd (real_of_int (10 ^ 17 - 1) / real_of_int (10 ^ 17)) =
        of_int (round_half_even (real_of_int (10 ^ 17 - 1) / real_of_int (10 ^ 17) / pow2 (- 1 - 52))) * pow2 (- 1 - 52)"
      by (rule rnd_eval) (simp_all add: pow2_def)
    moreover have "round_half_even (real_of_int (10 ^ 17 - 1) / real_of_int (10 ^ 17) / pow2 (- 1 - 52)) = 9007199254740991 + 1"
      by (rule rhe_up) (simp_all add: pow2_def)
    ultimately show ?thesis by (simp add: pow2_def)
  qed
  have y: "rnd (1 * 100) = 100" using rnd_of_int [of 100] by simp
  show ?thesis
    using percentage_value(1) [of "10 ^ 17 - 1" "10 ^ 17"] q y by simp
qed

lemma float_of_int_overflow: "float_of_int (2 ^ 1024) = Inl (Exn ''OverflowError'' ''int too large to convert to float'')"
proof -
  have "pow2 1024 \<le> rnd (real_of_int (2 ^ 1024))"
    by (rule rnd_ge_pow2) (simp_all add: pow2_def)
  then have "\<not> \<bar>rnd (real_of_int (2 ^ 1024))\<bar> < 2 ^ 1024" by (simp add: pow2_def)
  then show ?thesis by (simp add: float_of_int_def float_result_def)
qed

lemma div_add_le:
  fixes a b n :: int
  assumes "0 < n"
  shows "a div n + b div n \<le> (a + b) div n"
proof -
  have "0 \<le> a mod n + b mod n" using assms by simp
  then have "0 \<le> (a mod n + b mod n) div n"
    using assms by (simp only: pos_imp_zdiv_nonneg_iff)
  then show ?thesis using div_add1_eq [of a b n] by linarith
qed


lemma nth_update_any:
  "xs[a := v] ! i = (if i = a \<and> i < length xs then v else xs ! i)"
  by (cases "a < length xs") (auto simp: nth_list_update list_update_beyond)

lemma nth_fold_update:
  "(fold (\<lambda>l a. a[l := v]) ls xs) ! i = (if i \<in> set ls \<and> i < length xs then v else xs ! i)"
  by (induction ls arbitrary: xs) (auto simp: nth_update_any)

lemma length_fold_update [simp]:
  "length (fold (\<lambda>l a. a[l := v]) ls xs) = length xs"
  by (induction ls arbitrary: xs) auto

lemma fold_clear_level:
  "fold clear_level ls s =
     s\<lparr>action := fold (\<lambda>l a. a[l := None]) ls (action s),
       tick := fold (\<lambda>l t. t[l := 0]) ls (tick s)\<rparr>"
  by (induction ls arbitrary: s) (auto simp: clear_level_def)


lemma tree_ok_tree_of:
  "length ticks = max_level \<Longrightarrow> length totals = max_level \<Longrightarrow> tree_ok (tree_of ticks totals)"
  by (simp add: tree_ok_def tree_of_def)

section \<open>Frame properties of the setters\<close>

lemma set_action_fields:
  "action (set_action L a s) = (fold (\<lambda>l x. x[l := None]) [L + 1 ..< max_level] (action s))[L := Some a]"
  "tick (set_action L a s) = fold (\<lambda>l t. t[l := 0]) [L + 1 ..< max_level] (tick s)"
  "total_lv (set_action L a s) = total_lv s"
  "output_lv (set_action L a s) = output_lv s"
  by (simp_all add: set_action_def Let_def fold_clear_level)

lemma tree_ok_set_action: "tree_ok s \<Longrightarrow> tree_ok (set_action L a s)"
  by (simp add: tree_ok_def set_action_fields)

text \<open>
  C6: setting the action at level \<open>L\<close> clears action and tick of every deeper level, leaves
  action, tick, total and output of every shallower level as they were, and stores the new
  action at \<open>L\<close>.
\<close>

theorem set_action_frame:
  assumes "tree_ok s" and "L < max_level"
  shows "(\<forall>l. L < l \<and> l < max_level \<longrightarrow>
            action (set_action L a s) ! l = None \<and> tick (set_action L a s) ! l = 0) \<and>
         (\<forall>l. l < L \<longrightarrow>
            action (set_action L a s) ! l = action s ! l \<and>
            tick (set_action L a s) ! l = tick s ! l \<and>
            total_lv (set_action L a s) ! l = total_lv s ! l \<and>
            output_lv (set_action L a s) ! l = output_lv s ! l) \<and>
         action (set_action L a s) ! L = Some a"
  using assms
  by (auto simp: set_action_fields nth_update_any nth_fold_update tree_ok_def)

theorem set_action_frame_witness:
  "tick (set_action 1 ''x'' (tree_of [5, 6, 7, 8] [9, 9, 9, 9])) ! 2 = 0 \<and>
   tick (set_action 1 ''x'' (tree_of [5, 6, 7, 8] [9, 9, 9, 9])) ! 3 = 0 \<and>
   action (set_action 1 ''x'' (tree_of [5, 6, 7, 8] [9, 9, 9, 9])) ! 3 = None \<and>
   tick (set_action 1 ''x'' (tree_of [5, 6, 7, 8] [9, 9, 9, 9])) ! 0 = 5 \<and>
   total_lv (set_action 1 ''x'' (tree_of [5, 6, 7, 8] [9, 9, 9, 9])) ! 0 = 9 \<and>
   action (set_action 1 ''x'' (tree_of [5, 6, 7, 8] [9, 9, 9, 9])) ! 1 = Some ''x''"
proof -
  let ?s = "tree_of [5, 6, 7, 8] [9, 9, 9, 9]"
  have ok: "tree_ok ?s" by (simp add: tree_ok_def tree_of_def max_level_def)
  have lv: "(1::nat) < max_level" by (simp add: max_level_def)
  have v: "tick ?s ! 0 = 5" "total_lv ?s ! 0 = 9" by (simp_all add: tree_of_def)
  show ?thesis
    using set_action_frame [OF ok lv, of "''x''"] v by (simp add: max_level_def)
qed

text \<open>
  C10: a status change at level \<open>L\<close> (with the default \<^verbatim>\<open>tick=0\<close>, as at every call site)
  resets the level's own tick to 0 and its own output to \<^verbatim>\<open>None\<close>, stores the action, and
  clears action and tick of every deeper level.
\<close>

theorem set_status_resets_own_level:
  assumes "tree_ok s" and "L < max_level"
  shows "tick (set_status L a 0 s) ! L = 0 \<and>
         output_lv (set_status L a 0 s) ! L = None \<and>
         action (set_status L a 0 s) ! L = Some a \<and>
         (\<forall>l. L < l \<and> l < max_level \<longrightarrow>
            action (set_status L a 0 s) ! l = None \<and> tick (set_status L a 0 s) ! l = 0)"
  using assms
  by (auto simp: set_status_def set_tick_def Let_def set_action_fields nth_update_any
      nth_fold_update tree_ok_def)

theorem set_status_resets_own_level_witness:
  "tick (set_status 2 ''x'' 0 ((tree_of [5, 6, 7, 8] [9, 9, 9, 9])\<lparr>output_lv := [None, None, Some ''o'', None]\<rparr>)) ! 2 = 0 \<and>
   output_lv (set_status 2 ''x'' 0 ((tree_of [5, 6, 7, 8] [9, 9, 9, 9])\<lparr>output_lv := [None, None, Some ''o'', None]\<rparr>)) ! 2 = None \<and>
   tick (set_status 2 ''x'' 0 ((tree_of [5, 6, 7, 8] [9, 9, 9, 9])\<lparr>output_lv := [None, None, Some ''o'', None]\<rparr>)) ! 3 = 0"
proof -
  let ?s = "(tree_of [5, 6, 7, 8] [9, 9, 9, 9])\<lparr>output_lv := [None, None, Some ''o'', None]\<rparr>"
  have ok: "tree_ok ?s" by (simp add: tree_ok_def tree_of_def max_level_def)
  have lv: "(2::nat) < max_level" by (simp add: max_level_def)
  show ?thesis
    using set_status_resets_own_level [OF ok lv, of "''x''"] by (simp add: max_level_def)
qed

section \<open>Range of the aggregator\<close>

lemma chain_assoc: "chain (chain m f) g = chain m (\<lambda>x. chain (f x) g)"
  by (cases m) simp_all

lemma levels_downwards: "rev [0 ..< max_level] = [3, 2, 1, 0]"
  by (simp add: max_level_def upt_rec eval_nat_numeral)

lemma progress_step_deepest:
  "progress_step s 3 [a, b, c, d] =
     chain (percentage (tick s ! 3) (total_lv s ! 3)) (\<lambda>p. Inr [a, b, c, p])"
  by (simp add: progress_step_def max_level_def)

lemma progress_step_2:
  "progress_step s 2 [a, b, c, d] = chain (level_result s 2 d) (\<lambda>p. Inr [a, b, p, d])"
  by (simp add: progress_step_def level_result_def max_level_def chain_assoc cong: if_cong)

lemma progress_step_1:
  "progress_step s 1 [a, b, c, d] = chain (level_result s 1 c) (\<lambda>p. Inr [a, p, c, d])"
  by (simp add: progress_step_def level_result_def max_level_def chain_assoc cong: if_cong)

lemma progress_step_0:
  "progress_step s 0 [a, b, c, d] = chain (level_result s 0 b) (\<lambda>p. Inr [p, b, c, d])"
  by (simp add: progress_step_def level_result_def max_level_def chain_assoc cong: if_cong)

lemma get_progress_unfold:
  "get_progress s =
     chain (percentage (tick s ! 3) (total_lv s ! 3)) (\<lambda>p3.
     chain (level_result s 2 p3) (\<lambda>p2.
     chain (level_result s 1 p2) (\<lambda>p1.
     chain (level_result s 0 p1) (\<lambda>p0.
     Inr [p0, p1, p2, p3]))))"
proof -
  have "get_progress s = progress_loop s [3, 2, 1, 0] [0, 0, 0, 0]"
    by (simp add: get_progress_def levels_downwards) (simp add: max_level_def eval_nat_numeral)
  then show ?thesis
    by (simp only: progress_loop.simps progress_step_deepest progress_step_2 progress_step_1
        progress_step_0 chain_assoc chain_Inr)
qed

lemma percentage_complete: "0 < n \<Longrightarrow> n \<le> p \<Longrightarrow> percentage p n = Inr 100"
proof -
  assume a: "0 < n" "n \<le> p"
  have 1: "rnd (1 * 100) = 100" using rnd_of_int [of 100] by simp
  have 2: "rnd 1 = 1" using rnd_of_int [of 1] by simp
  show ?thesis
    using percentage_value(1) [of p n] a 1 2 by (simp add: min_def)
qed

lemma percentage_zero: "0 \<le> n \<Longrightarrow> percentage 0 n = Inr 0"
  using percentage_value(1) [of 0 n] by simp

lemma substep_one:
  assumes "0 \<le> c" "c < 2 ^ 53"
  shows "substep c 1 = Inr c"
proof -
  have 1: "rnd (real_of_int 1) = 1" using rnd_of_int [of 1] by simp
  have 2: "rnd 1 = 1" using rnd_of_int [of 1] by simp
  show ?thesis
    using substep_value(1) [of 1 c] assms 1 2 rnd_of_int [OF assms] by simp
qed

lemma substep_of_zero:
  assumes "0 < n" "n < 2 ^ 1023"
  shows "substep 0 n = Inr 0"
  using substep_value(1) [OF assms, of 0] by simp

lemma level_result_bounds:
  assumes t: "0 \<le> tick s ! l" and n: "0 \<le> total_lv s ! l" "total_lv s ! l < 2 ^ 1023"
    and c: "0 \<le> c" "c < 2 ^ 53"
  shows "\<exists>v. level_result s l c = Inr v \<and> 0 \<le> v \<and> v \<le> 100 + c \<and>
           (tick s ! l < total_lv s ! l \<longrightarrow> c \<le> 100 \<longrightarrow> v \<le> 100)"
proof -
  obtain b where b: "percentage (tick s ! l) (total_lv s ! l) = Inr b" "0 \<le> b" "b \<le> 100"
    using percentage_returns [OF t n(1)] by blast
  show ?thesis
  proof (cases "0 < total_lv s ! l")
    case False
    then have "level_result s l c = Inr b" using b(1) by (simp add: level_result_def)
    then show ?thesis using b c by simp
  next
    case True
    note v = substep_value [OF True n(2) c]
    define d where "d = \<lfloor>rnd (real_of_int c * rnd (1 / rnd (real_of_int (total_lv s ! l))))\<rfloor>"
    have sd: "substep c (total_lv s ! l) = Inr d" using v(1) by (simp add: d_def)
    have d: "0 \<le> d" "d \<le> c"
      using v(5,6) by (simp_all add: d_def floor_le_iff)
    have lr: "level_result s l c = Inr (b + d)"
      using b(1) sd True by (simp add: level_result_def)
    have "b + d \<le> 100" if lt: "tick s ! l < total_lv s ! l" and c100: "c \<le> 100"
    proof (cases "total_lv s ! l \<le> 100")
      case True
      have b1: "b \<le> tick s ! l * 100 div total_lv s ! l"
        by (rule percentage_le_div [OF t lt True b(1)])
      have d1: "d \<le> c div total_lv s ! l"
        using substep_le_div [OF \<open>0 < total_lv s ! l\<close> True c(1) c100 sd] by simp
      have "tick s ! l * 100 div total_lv s ! l + c div total_lv s ! l \<le>
          (tick s ! l * 100 + c) div total_lv s ! l"
        by (rule div_add_le [OF \<open>0 < total_lv s ! l\<close>])
      also have "\<dots> \<le> (total_lv s ! l * 100) div total_lv s ! l"
      proof (rule zdiv_mono1)
        have "tick s ! l * 100 + c \<le> (tick s ! l + 1) * 100" using c100 by (simp add: algebra_simps)
        also have "\<dots> \<le> total_lv s ! l * 100" using lt by simp
        finally show "tick s ! l * 100 + c \<le> total_lv s ! l * 100" .
      qed (rule \<open>0 < total_lv s ! l\<close>)
      also have "\<dots> = 100" using \<open>0 < total_lv s ! l\<close> by simp
      finally show ?thesis using b1 d1 by linarith
    next
      case False
      then have "100 < total_lv s ! l" by simp
      then have "substep c (total_lv s ! l) = Inr 0"
        using n(2) c(1) c100 by (rule substep_zero)
      then have "d = 0" using sd by simp
      then show ?thesis using b(3) by simp
    qed
    then show ?thesis using lr b d by auto
  qed
qed

text \<open>
  C1 as stated fails: with every counter at its total, each level adds the full percentage
  of the level below to its own 100.
\<close>

theorem get_progress_exceeds_100:
  "tick (tree_of [1, 1, 1, 1] [1, 1, 1, 1]) = [1, 1, 1, 1] \<and>
   total_lv (tree_of [1, 1, 1, 1] [1, 1, 1, 1]) = [1, 1, 1, 1] \<and>
   get_progress (tree_of [1, 1, 1, 1] [1, 1, 1, 1]) = Inr [400, 300, 200, 100]"
  by (simp add: get_progress_unfold level_result_def percentage_complete substep_one tree_of_def)

text \<open>
  C1 amended: when every tick is at least 0 and every total at least 0 and below \<open>2 ^ 1023\<close>
  (so that its conversion to a float cannot overflow), the aggregator returns, every level's
  percentage is at least 0, and it is at most 100 at a level \<open>l\<close> when each level from \<open>l\<close>
  upwards that has a level below it is still short of its total (so always at the deepest
  level).
\<close>

theorem get_progress_range:
  assumes nn: "\<forall>k < max_level. 0 \<le> tick s ! k \<and> 0 \<le> total_lv s ! k \<and> total_lv s ! k < 2 ^ 1023"
    and l: "l < max_level"
  shows "\<exists>ps. get_progress s = Inr ps \<and> length ps = max_level \<and> 0 \<le> ps ! l \<and>
           ((\<forall>k. l \<le> k \<and> k + 1 < max_level \<longrightarrow> tick s ! k < total_lv s ! k) \<longrightarrow>
              ps ! l \<le> 100)"
proof -
  have nn0: "0 \<le> tick s ! 0" "0 \<le> total_lv s ! 0" "total_lv s ! 0 < 2 ^ 1023"
    and nn1: "0 \<le> tick s ! 1" "0 \<le> total_lv s ! 1" "total_lv s ! 1 < 2 ^ 1023"
    and nn2: "0 \<le> tick s ! 2" "0 \<le> total_lv s ! 2" "total_lv s ! 2 < 2 ^ 1023"
    and nn3: "0 \<le> tick s ! 3" "0 \<le> total_lv s ! 3"
    using nn by (simp_all add: max_level_def)
  obtain p3 where p3: "percentage (tick s ! 3) (total_lv s ! 3) = Inr p3" "0 \<le> p3" "p3 \<le> 100"
    using percentage_returns [OF nn3] by blast
  have c3: "p3 < 2 ^ 53" using p3(3) by simp
  obtain p2 where p2: "level_result s 2 p3 = Inr p2" "0 \<le> p2" "p2 \<le> 100 + p3"
    "tick s ! 2 < total_lv s ! 2 \<longrightarrow> p3 \<le> 100 \<longrightarrow> p2 \<le> 100"
    using level_result_bounds [OF nn2 p3(2) c3] by blast
  have c2: "p2 < 2 ^ 53" using p2(3) p3(3) by simp
  obtain p1 where p1: "level_result s 1 p2 = Inr p1" "0 \<le> p1" "p1 \<le> 100 + p2"
    "tick s ! 1 < total_lv s ! 1 \<longrightarrow> p2 \<le> 100 \<longrightarrow> p1 \<le> 100"
    using level_result_bounds [OF nn1 p2(2) c2] by blast
  have c1: "p1 < 2 ^ 53" using p1(3) p2(3) p3(3) by simp
  obtain p0 where p0: "level_result s 0 p1 = Inr p0" "0 \<le> p0" "p0 \<le> 100 + p1"
    "tick s ! 0 < total_lv s ! 0 \<longrightarrow> p1 \<le> 100 \<longrightarrow> p0 \<le> 100"
    using level_result_bounds [OF nn0 p1(2) c1] by blast
  have gp: "get_progress s = Inr [p0, p1, p2, p3]"
    by (simp only: get_progress_unfold p3(1) p2(1) p1(1) p0(1) chain_Inr)
  have len: "length [p0, p1, p2, p3] = max_level" by (simp add: max_level_def)
  from l have "l = 0 \<or> l = 1 \<or> l = 2 \<or> l = 3" by (auto simp: max_level_def)
  then have "0 \<le> [p0, p1, p2, p3] ! l \<and>
           ((\<forall>k. l \<le> k \<and> k + 1 < max_level \<longrightarrow> tick s ! k < total_lv s ! k) \<longrightarrow>
              [p0, p1, p2, p3] ! l \<le> 100)"
  proof (elim disjE)
    assume "l = 0"
    then show ?thesis using p0 p1(4) p2(4) p3(3) by (simp add: max_level_def)
  next
    assume "l = 1"
    then show ?thesis using p1 p2(4) p3(3) by (simp add: max_level_def)
  next
    assume "l = 2"
    then show ?thesis using p2 p3(3) by (simp add: max_level_def)
  next
    assume "l = 3"
    then show ?thesis using p3 by simp
  qed
  then show ?thesis using gp len by blast
qed

theorem get_progress_range_witness:
  "\<exists>ps. get_progress (tree_of [1, 0, 2, 3] [2, 1, 4, 3]) = Inr ps \<and> 0 \<le> ps ! 0 \<and> ps ! 0 \<le> 100"
proof -
  let ?s = "tree_of [1, 0, 2, 3] [2, 1, 4, 3]"
  have nn: "\<forall>k < max_level. 0 \<le> tick ?s ! k \<and> 0 \<le> total_lv ?s ! k \<and> total_lv ?s ! k < 2 ^ 1023"
    by (simp add: max_level_def tree_of_def less_Suc_eq eval_nat_numeral all_conj_distrib)
  have l: "(0::nat) < max_level" by (simp add: max_level_def)
  have lt: "\<forall>k. 0 \<le> k \<and> k + 1 < max_level \<longrightarrow> tick ?s ! k < total_lv ?s ! k"
    by (auto simp: max_level_def tree_of_def less_Suc_eq eval_nat_numeral)
  show ?thesis using get_progress_range [OF nn l] lt by blast
qed

text \<open>A total that no double holds makes the roll-up raise.\<close>

lemma substep_overflow:
  "substep c (2 ^ 1024) = Inl (Exn ''OverflowError'' ''int too large to convert to float'')"
  by (simp only: substep_def float_of_int_overflow chain_Inl)


section \<open>Parsing the output of a pull\<close>

lemma append_output_fields [simp]:
  "tick (append_output l txt s) = tick s"
  "total_lv (append_output l txt s) = total_lv s"
  "action (append_output l txt s) = action s"
  by (simp_all add: append_output_def)

lemma new_layers_Cons:
  "new_layers (x # xs) =
     (case classify_line x of NewLayer i \<Rightarrow> insert i (new_layers xs) | _ \<Rightarrow> new_layers xs)"
  by (simp add: new_layers_def layer_of_def List.map_filter_simps split: line_kind.splits)

lemma pull_line_step:
  assumes "level < length (tick s)" "level < length (total_lv s)"
  shows "pull_line level line (L, s) =
           (case classify_line line of
              NewLayer i \<Rightarrow> insert i L | _ \<Rightarrow> L,
            snd (pull_line level line (L, s)))"
    and "tick (snd (pull_line level line (L, s))) ! level =
           tick s ! level + (if classify_line line = Completed then 1 else 0)"
    and "total_lv (snd (pull_line level line (L, s))) ! level =
           (case classify_line line of
              NewLayer i \<Rightarrow> 2 * int (card (insert i L)) | _ \<Rightarrow> total_lv s ! level)"
    and "length (tick (snd (pull_line level line (L, s)))) = length (tick s)"
    and "length (total_lv (snd (pull_line level line (L, s)))) = length (total_lv s)"
  using assms
  by (auto simp: pull_line_def Let_def set_total_def do_tick_def set_tick_def split: line_kind.splits)

lemma fold_pull_line:
  assumes "level < length (tick s)" "level < length (total_lv s)"
  shows "fst (fold (pull_line level) lines (L, s)) = L \<union> new_layers lines \<and>
         tick (snd (fold (pull_line level) lines (L, s))) ! level = tick s ! level + completed_count lines \<and>
         total_lv (snd (fold (pull_line level) lines (L, s))) ! level =
           (if new_layers lines = {} then total_lv s ! level
            else 2 * int (card (L \<union> new_layers lines)))"
  using assms
proof (induction lines arbitrary: L s)
  case Nil
  then show ?case by (simp add: new_layers_def completed_count_def)
next
  case (Cons x xs)
  obtain L1 s1 where st: "pull_line level x (L, s) = (L1, s1)" by (cases "pull_line level x (L, s)")
  note ps = pull_line_step [OF Cons.prems, of x L]
  have L1: "L1 = (case classify_line x of NewLayer i \<Rightarrow> insert i L | _ \<Rightarrow> L)"
    using ps(1) st by simp
  have len: "level < length (tick s1)" "level < length (total_lv s1)"
    using ps(4,5) st Cons.prems by simp_all
  note ih = Cons.IH [OF len, of L1]
  have cc: "completed_count (x # xs) = (if classify_line x = Completed then 1 else 0) + completed_count xs"
    by (simp add: completed_count_def)
  show ?case
  proof (cases "classify_line x")
    case (NewLayer i)
    then show ?thesis
      using ih ps(2,3) st L1 cc by (auto simp: new_layers_Cons insert_commute Un_commute)
  next
    case Completed
    then show ?thesis
      using ih ps(2,3) st L1 cc by (simp add: new_layers_Cons)
  next
    case Ignored
    then show ?thesis
      using ih ps(2,3) st L1 cc by (simp add: new_layers_Cons)
  qed
qed


section \<open>Rules for invariants\<close>

lemma preservesI: "(\<And>s r s1. P s \<Longrightarrow> m s = (r, s1) \<Longrightarrow> P s1) \<Longrightarrow> preserves P m"
  unfolding preserves_def by blast

lemma preservesD: "preserves P m \<Longrightarrow> P s \<Longrightarrow> m s = (r, s1) \<Longrightarrow> P s1"
  unfolding preserves_def by blast

lemma preserves_andthen:
  assumes "preserves P m" and "\<And>x. preserves P (f x)"
  shows "preserves P (andthen m f)"
proof (rule preservesI)
  fix s r s1 assume P: "P s" and run: "andthen m f s = (r, s1)"
  obtain r0 s0 where m: "m s = (r0, s0)" by (cases "m s")
  have P0: "P s0" using preservesD [OF assms(1) P m] .
  show "P s1"
  proof (cases r0)
    case (Inl e)
    then show ?thesis using run m P0 by (simp add: andthen_def)
  next
    case (Inr x)
    then have "f x s0 = (r, s1)" using run m by (simp add: andthen_def)
    then show ?thesis using preservesD [OF assms(2) P0] by blast
  qed
qed

lemma preserves_upd:
  assumes "\<And>s. P s \<Longrightarrow> P (f s)"
  shows "preserves P (upd f)"
proof (rule preservesI)
  fix s r s1 assume "P s" "upd f s = (r, s1)"
  then show "P s1" using assms by (auto simp: upd_def)
qed


lemma preserves_ret: "preserves P (ret x)"
proof (rule preservesI)
  fix s r s1 assume "P s" "ret x s = (r, s1)"
  then show "P s1" by (simp add: ret_def)
qed

lemma preserves_call:
  assumes "\<And>s w. P s \<Longrightarrow> P (s\<lparr>world := w, calls := calls s @ [ev]\<rparr>)"
  shows "preserves P (call ev f)"
proof (rule preservesI)
  fix s r s1 assume P: "P s" and c: "call ev f s = (r, s1)"
  obtain r0 w0 where f: "f (world s) = (r0, w0)" by (cases "f (world s)")
  have "s1 = s\<lparr>world := w0, calls := calls s @ [ev]\<rparr>" using c f by (simp add: call_def)
  then show "P s1" using assms [OF P] by simp
qed


lemma preserves_for_each:
  assumes "\<And>x. preserves P (f x)"
  shows "preserves P (for_each f xs)"
proof (rule preservesI)
  fix s r s1 assume "P s" "for_each f xs s = (r, s1)"
  then show "P s1"
  proof (induction xs arbitrary: s)
    case Nil
    then show ?case by simp
  next
    case (Cons x xs)
    obtain r0 s0 where m: "f x s = (r0, s0)" by (cases "f x s")
    have P0: "P s0" using preservesD [OF assms Cons.prems(1) m] .
    show ?case
    proof (cases r0)
      case (Inl e)
      then show ?thesis using Cons.prems(2) m P0 by simp
    next
      case (Inr u)
      then have "for_each f xs s0 = (r, s1)" using Cons.prems(2) m by simp
      then show ?thesis using Cons.IH [OF P0] by blast
    qed
  qed
qed

lemma preserves_reading:
  assumes "\<And>v. preserves P (m v)"
  shows "preserves P (\<lambda>s. m (g s) s)"
proof (rule preservesI)
  fix s r s1 assume P: "P s" and c: "m (g s) s = (r, s1)"
  show "P s1" using preservesD [OF assms P c] .
qed


lemma preserves_if:
  assumes "preserves P m1" and "preserves P m2"
  shows "preserves P (\<lambda>s. if c s then m1 s else m2 s)"
proof (rule preservesI)
  fix s r s1 assume P: "P s" and c: "(if c s then m1 s else m2 s) = (r, s1)"
  show "P s1"
  proof (cases "c s")
    case True
    then show ?thesis using preservesD [OF assms(1) P] c by simp
  next
    case False
    then show ?thesis using preservesD [OF assms(2) P] c by simp
  qed
qed


lemma preserves_skip: "preserves P (\<lambda>s. (Inr (), s))"
proof (rule preservesI)
  fix s r s1 assume "P s" "(Inr (), s) = (r, s1)"
  then show "P s1" by simp
qed

lemma frameD:
  assumes "frame kt kn A P" and "P s"
  shows "kn \<le> l \<Longrightarrow> P (set_total l v s)"
    and "kt \<le> l \<Longrightarrow> P (set_tick l v s)"
    and "kt \<le> l \<Longrightarrow> P (set_action l a s)"
    and "kt \<le> l \<Longrightarrow> P (s\<lparr>output_lv := (output_lv s)[l := ov]\<rparr>)"
    and "A ev \<Longrightarrow> P (s\<lparr>world := w, calls := calls s @ [ev]\<rparr>)"
  using assms by (simp_all add: frame_def)

lemma frame_do_tick: "frame kt kn A P \<Longrightarrow> P s \<Longrightarrow> kt \<le> l \<Longrightarrow> P (do_tick l s)"
  by (simp add: do_tick_def frameD(2))

lemma frame_set_status: "frame kt kn A P \<Longrightarrow> P s \<Longrightarrow> kt \<le> l \<Longrightarrow> P (set_status l a t s)"
  unfolding set_status_def Let_def
  by (intro frameD(4) [where P = P] frameD(3) [where P = P] frameD(2) [where P = P]) assumption+

lemma frame_append_output: "frame kt kn A P \<Longrightarrow> P s \<Longrightarrow> kt \<le> l \<Longrightarrow> P (append_output l txt s)"
  unfolding append_output_def by (rule frameD(4))

lemma frame_pull_begin:
  "frame kt kn A P \<Longrightarrow> P s \<Longrightarrow> kt \<le> l \<Longrightarrow> kn \<le> l \<Longrightarrow> P (pull_begin l s)"
  unfolding pull_begin_def Let_def
  by (intro frameD(4) [where P = P] frameD(2) [where P = P] frameD(1) [where P = P]) assumption+

lemma frame_pull_line:
  assumes "frame kt kn A P" "P (snd ls)" "kt \<le> l" "kn \<le> l"
  shows "P (snd (pull_line l line ls))"
proof -
  define s1 where "s1 = append_output l (CHR 0x0A # strip line) (snd ls)"
  have 1: "P s1"
    unfolding s1_def using assms(1,2,3) by (rule frame_append_output)
  show ?thesis
  proof (cases "classify_line line")
    case (NewLayer i)
    have "snd (pull_line l line ls) = set_total l (2 * int (card (insert i (fst ls)))) s1"
      by (simp add: pull_line_def Let_def NewLayer s1_def)
    then show ?thesis using frameD(1) [OF assms(1) 1 assms(4)] by simp
  next
    case Completed
    have "snd (pull_line l line ls) = do_tick l s1"
      by (simp add: pull_line_def Let_def Completed s1_def)
    then show ?thesis using frame_do_tick [OF assms(1) 1 assms(3)] by simp
  next
    case Ignored
    have "snd (pull_line l line ls) = s1"
      by (simp add: pull_line_def Let_def Ignored s1_def)
    then show ?thesis using 1 by simp
  qed
qed

lemma frame_pull_fold:
  assumes "frame kt kn A P" "kt \<le> l" "kn \<le> l"
  shows "P (snd ls) \<Longrightarrow> P (snd (fold (pull_line l) lines ls))"
proof (induction lines arbitrary: ls)
  case Nil
  then show ?case by simp
next
  case (Cons x xs)
  have "P (snd (pull_line l x ls))" using frame_pull_line [OF assms(1) Cons.prems assms(2,3)] .
  then show ?case using Cons.IH by simp
qed

lemma frame_pull_lines:
  "frame kt kn A P \<Longrightarrow> P s \<Longrightarrow> kt \<le> l \<Longrightarrow> kn \<le> l \<Longrightarrow> P (snd (pull_lines l lines s))"
  unfolding pull_lines_def
  by (rule frame_pull_fold [where kt = kt and kn = kn and A = A]) (simp_all add: frame_pull_begin)



lemma length_two_iff: "length xs = 2 \<longleftrightarrow> (\<exists>a b. xs = [a, b])"
  by (cases xs; cases "tl xs") (auto simp: eval_nat_numeral)

lemma classify_line_NewLayer_iff:
  "classify_line line = NewLayer i \<longleftrightarrow>
     (\<exists>a b. split_on (CHR '':'') (strip line) = [a, b] \<and> strip a = i \<and> length i = 12 \<and>
            strip b \<in> {''Waiting'', ''Pulling fs layer''})"
  by (auto simp: classify_line_def Let_def length_two_iff)

lemma classify_line_Completed_iff:
  "classify_line line = Completed \<longleftrightarrow>
     (\<exists>a b. split_on (CHR '':'') (strip line) = [a, b] \<and> length (strip a) = 12 \<and>
            strip b \<in> {''Download complete'', ''Pull complete''})"
  by (auto simp: classify_line_def Let_def length_two_iff)

text \<open>
  C8: over the lines of a pull, the layers registered are those of the lines whose action is
  \<^verbatim>\<open>Waiting\<close> or \<^verbatim>\<open>Pulling fs layer\<close>, the total becomes twice their number (it stays 1
  while there is none), the tick is the number of lines whose action is
  \<^verbatim>\<open>Download complete\<close> or \<^verbatim>\<open>Pull complete\<close>; line by line, a line of the first kind
  leaves the tick alone, a line of the second kind adds exactly one to it and leaves the
  total alone, and any other line changes neither.
\<close>

theorem pull_lines_counts:
  assumes "tree_ok s" and "level < max_level"
  shows "fst (pull_lines level lines s) = new_layers lines \<and>
         tick (snd (pull_lines level lines s)) ! level = completed_count lines \<and>
         total_lv (snd (pull_lines level lines s)) ! level =
           (if new_layers lines = {} then 1 else 2 * int (card (new_layers lines))) \<and>
         (\<forall>line L. case classify_line line of
            NewLayer i \<Rightarrow>
              fst (pull_line level line (L, s)) = insert i L \<and>
              total_lv (snd (pull_line level line (L, s))) ! level = 2 * int (card (insert i L)) \<and>
              tick (snd (pull_line level line (L, s))) ! level = tick s ! level
          | Completed \<Rightarrow>
              fst (pull_line level line (L, s)) = L \<and>
              tick (snd (pull_line level line (L, s))) ! level = tick s ! level + 1 \<and>
              total_lv (snd (pull_line level line (L, s))) ! level = total_lv s ! level
          | Ignored \<Rightarrow>
              fst (pull_line level line (L, s)) = L \<and>
              tick (snd (pull_line level line (L, s))) ! level = tick s ! level \<and>
              total_lv (snd (pull_line level line (L, s))) ! level = total_lv s ! level)"
proof -
  have len: "level < length (tick s)" "level < length (total_lv s)"
    using assms by (simp_all add: tree_ok_def)
  define s0 where "s0 = pull_begin level s"
  have len0: "level < length (tick s0)" "level < length (total_lv s0)"
    and v0: "tick s0 ! level = 0" "total_lv s0 ! level = 1"
    using len by (simp_all add: s0_def pull_begin_def Let_def set_tick_def set_total_def)
  have whole: "fst (pull_lines level lines s) = new_layers lines"
    "tick (snd (pull_lines level lines s)) ! level = completed_count lines"
    "total_lv (snd (pull_lines level lines s)) ! level =
           (if new_layers lines = {} then 1 else 2 * int (card (new_layers lines)))"
    using fold_pull_line [OF len0, of lines "{}"] v0
    by (simp_all add: pull_lines_def s0_def)
  have step: "case classify_line line of
            NewLayer i \<Rightarrow>
              fst (pull_line level line (L, s)) = insert i L \<and>
              total_lv (snd (pull_line level line (L, s))) ! level = 2 * int (card (insert i L)) \<and>
              tick (snd (pull_line level line (L, s))) ! level = tick s ! level
          | Completed \<Rightarrow>
              fst (pull_line level line (L, s)) = L \<and>
              tick (snd (pull_line level line (L, s))) ! level = tick s ! level + 1 \<and>
              total_lv (snd (pull_line level line (L, s))) ! level = total_lv s ! level
          | Ignored \<Rightarrow>
              fst (pull_line level line (L, s)) = L \<and>
              tick (snd (pull_line level line (L, s))) ! level = tick s ! level \<and>
              total_lv (snd (pull_line level line (L, s))) ! level = total_lv s ! level" for line L
    using pull_line_step(1) [OF len, of line L, unfolded prod_eq_iff]
      pull_line_step(2,3) [OF len, of line L]
    by (cases "classify_line line") simp_all
  show ?thesis using whole step by blast
qed

theorem pull_lines_counts_witness:
  "tick (snd (pull_lines 3 one_layer_pull (tree_of [0, 0, 0, 7] [1, 1, 1, 9]))) ! 3 = 2 \<and>
   total_lv (snd (pull_lines 3 one_layer_pull (tree_of [0, 0, 0, 7] [1, 1, 1, 9]))) ! 3 = 2"
proof -
  have ok: "tree_ok (tree_of [0, 0, 0, 7] [1, 1, 1, 9])"
    by (simp add: tree_ok_def tree_of_def max_level_def)
  have lv: "(3::nat) < max_level" by (simp add: max_level_def)
  have nl: "new_layers one_layer_pull = {''0123456789ab''}" by code_simp
  have cc: "completed_count one_layer_pull = 2" by code_simp
  show ?thesis using pull_lines_counts [OF ok lv, of one_layer_pull] nl cc by simp
qed



section \<open>Invariants of the collaborator calls\<close>

lemma preserves_boot_log:
  assumes "frame kt kn A P" "A (EvBootLog p m)"
  shows "preserves P (boot_log h p m)"
  unfolding boot_log_def
  by (rule preserves_call) (rule frameD(5) [OF assms(1) _ assms(2)])

lemma preserves_remove_file:
  assumes "frame kt kn A P" "A (EvRemove f)"
  shows "preserves P (remove_file h f)"
  unfolding remove_file_def
  by (rule preserves_call) (rule frameD(5) [OF assms(1) _ assms(2)])

lemma preserves_docker_image_exists:
  assumes "frame kt kn A P" "A EvImages"
  shows "preserves P (docker_image_exists h img)"
  unfolding docker_image_exists_def
  by (intro preserves_andthen preserves_call preserves_ret) (rule frameD(5) [OF assms(1) _ assms(2)])

lemma preserves_images_in_stack:
  assumes "frame kt kn A P" "A (EvStackImages f)"
  shows "preserves P (images_in_stack h f)"
  unfolding images_in_stack_def
  by (intro preserves_andthen preserves_call preserves_ret) (rule frameD(5) [OF assms(1) _ assms(2)])

lemma preserves_docker_pull_image:
  assumes "frame kt kn A P" "kt \<le> l" "kn \<le> l" "A (EvPull img)"
  shows "preserves P (docker_pull_image h img l)"
  unfolding docker_pull_image_def
proof (intro preserves_andthen preserves_call preserves_upd)
  fix s :: "'a machine" assume "P s"
  then show "P (set_action l (''Pulling image: '' @ img) s)"
    using assms by (intro frameD(3) [OF assms(1)])
next
  fix s :: "'a machine" and w assume "P s"
  then show "P (s\<lparr>world := w, calls := calls s @ [EvPull img]\<rparr>)"
    by (rule frameD(5) [OF assms(1) _ assms(4)])
next
  fix x and s :: "'a machine" assume "P s"
  then show "P (snd (pull_lines l x s))"
    using assms by (intro frame_pull_lines [OF assms(1)])
qed

lemma preserves_docker_run_stack:
  assumes "frame kt kn A P" "kt \<le> l" "kn \<le> l" "A (EvComposeUp (stack_name_of f) f)"
  shows "preserves P (docker_run_stack h f l)"
  unfolding docker_run_stack_def
proof (intro preserves_andthen preserves_call preserves_upd)
  fix s :: "'a machine" assume "P s"
  then show "P (set_status l (''Running stack: '' @ stack_name_of f) 0 s)"
    using assms by (intro frame_set_status [OF assms(1)])
next
  fix s :: "'a machine" assume "P s"
  then show "P (set_total l 1 s)" using assms by (intro frameD(1) [OF assms(1)])
next
  fix s :: "'a machine" and w assume "P s"
  then show "P (s\<lparr>world := w, calls := calls s @ [EvComposeUp (stack_name_of f) f]\<rparr>)"
    by (rule frameD(5) [OF assms(1) _ assms(4)])
next
  fix s :: "'a machine" assume "P s"
  then show "P (s\<lparr>output_lv := (output_lv s)[l := None]\<rparr>)"
    using assms by (intro frameD(4) [OF assms(1)])
next
  fix s :: "'a machine" assume "P s"
  then show "P (do_tick l s)" using assms by (intro frame_do_tick [OF assms(1)])
qed

lemma frame_transfer:
  assumes "frame kt kn A P" "kt \<le> l"
  shows "P (snd bs) \<Longrightarrow> P (snd (fold (transfer_chunk l) chunks bs))"
proof (induction chunks arbitrary: bs)
  case Nil
  then show ?case by simp
next
  case (Cons c cs)
  have "P (snd (transfer_chunk l c bs))"
    using frameD(2) [OF assms(1) Cons.prems assms(2)] by (simp add: transfer_chunk_def)
  then show ?case using Cons.IH by simp
qed

lemma preserves_docker_load_archive:
  assumes "frame kt kn A P" "kt \<le> l" "kn \<le> l" "A (EvStat f)" "A (EvLoad f)"
  shows "preserves P (docker_load_archive h f l)"
  unfolding docker_load_archive_def
proof (intro preserves_andthen preserves_call preserves_upd)
  fix s :: "'a machine" assume "P s"
  then show "P (set_status l (''Loading archive: '' @ basename f) 0 s)"
    using assms by (intro frame_set_status [OF assms(1)])
next
  fix s :: "'a machine" and w assume "P s"
  then show "P (s\<lparr>world := w, calls := calls s @ [EvStat f]\<rparr>)"
    by (rule frameD(5) [OF assms(1) _ assms(4)])
next
  fix x and s :: "'a machine" assume "P s"
  then show "P (set_total l x s)" using assms by (intro frameD(1) [OF assms(1)])
next
  fix x :: int and y :: unit
  show "preserves P (\<lambda>s. case docker_load h f (world s) of
        ((chunks, r), w1) \<Rightarrow>
          (let s1 = s\<lparr>world := w1, calls := calls s @ [EvLoad f]\<rparr>;
               s2 = snd (fold (transfer_chunk l) chunks (0, s1))
           in case r of
                Inl e \<Rightarrow> (Inl e, s2)
              | Inr out \<Rightarrow> (Inr (), s2\<lparr>output_lv := (output_lv s2)[l := Some out]\<rparr>)))"
  proof (rule preservesI)
    fix s :: "'a machine" and r s1
    assume P: "P s" and run: "(case docker_load h f (world s) of
        ((chunks, r), w1) \<Rightarrow>
          (let s1 = s\<lparr>world := w1, calls := calls s @ [EvLoad f]\<rparr>;
               s2 = snd (fold (transfer_chunk l) chunks (0, s1))
           in case r of
                Inl e \<Rightarrow> (Inl e, s2)
              | Inr out \<Rightarrow> (Inr (), s2\<lparr>output_lv := (output_lv s2)[l := Some out]\<rparr>))) = (r, s1)"
    obtain chunks r0 w1 where dl: "docker_load h f (world s) = ((chunks, r0), w1)"
      by (metis surj_pair)
    define s2 where "s2 = snd (fold (transfer_chunk l) chunks (0, s\<lparr>world := w1, calls := calls s @ [EvLoad f]\<rparr>))"
    have "P (s\<lparr>world := w1, calls := calls s @ [EvLoad f]\<rparr>)"
      by (rule frameD(5) [OF assms(1) P assms(5)])
    then have P2: "P s2"
      unfolding s2_def by (intro frame_transfer [OF assms(1,2)]) simp
    have P3: "P (s2\<lparr>output_lv := (output_lv s2)[l := Some out]\<rparr>)" for out
      by (rule frameD(4) [OF assms(1) P2 assms(2)])
    show "P s1"
      using run dl P2 P3 by (cases r0) (auto simp: Let_def s2_def)
  qed
qed

lemma preserves_dict_get: "preserves P (dict_get d k)"
  by (rule preservesI) (auto simp: dict_get_def split: option.splits)

lemma preserves_read_stacks:
  assumes "frame kt kn A P" "\<And>f. A (EvStackImages f)"
  shows "preserves P (read_stacks h fs d)"
proof (rule preservesI)
  fix s :: "'a machine" and r s1 assume "P s" "read_stacks h fs d s = (r, s1)"
  then show "P s1"
  proof (induction fs arbitrary: d s)
    case Nil
    then show ?case by simp
  next
    case (Cons f fs)
    obtain r0 s0 where m: "images_in_stack h f s = (r0, s0)" by (cases "images_in_stack h f s")
    have P0: "P s0"
      using preservesD [OF preserves_images_in_stack [OF assms(1) assms(2)] Cons.prems(1) m] .
    show ?case
    proof (cases r0)
      case (Inl e)
      then show ?thesis using Cons.prems(2) m P0 by simp
    next
      case (Inr images)
      then have "read_stacks h fs (AList.update f images d) s0 = (r, s1)"
        using Cons.prems(2) m by simp
      then show ?thesis using Cons.IH [OF P0] by blast
    qed
  qed
qed



section \<open>Invariants of a cycle\<close>

lemma preserves_load_archive_item:
  assumes fr: "frame 0 kn A P" "kn \<le> 1" and ev: "\<And>ev. A ev"
  shows "preserves P (load_archive_item h archive)"
  unfolding load_archive_item_def
proof (intro preserves_andthen preserves_if preserves_skip preserves_upd)
  show "preserves P (docker_load_archive h archive 2)"
    using fr ev by (intro preserves_docker_load_archive [OF fr(1)]) simp_all
  show "preserves P (remove_file h archive)"
    by (rule preserves_remove_file [OF fr(1) ev])
  show "preserves P (boot_log h ''loading'' (''Archive loaded: '' @ basename archive))"
    by (rule preserves_boot_log [OF fr(1) ev])
  show "P (do_tick 1 s)" if "P s" for s :: "'a machine"
    using that by (intro frame_do_tick [OF fr(1)]) simp_all
  show "P (do_tick 0 s)" if "P s" for s :: "'a machine"
    using that by (intro frame_do_tick [OF fr(1)]) simp_all
qed

lemma preserves_run_stack_image:
  assumes fr: "frame 0 kn A P" "kn \<le> 1" and ev: "\<And>ev. A ev"
  shows "preserves P (run_stack_image h img)"
  unfolding run_stack_image_def
proof (intro preserves_andthen preserves_upd)
  show "preserves P (docker_image_exists h img)"
    by (rule preserves_docker_image_exists [OF fr(1) ev])
  show "preserves P (if \<not> present
              then andthen (docker_pull_image h img 3) (\<lambda>_.
                   boot_log h ''loading'' (''Image loaded: '' @ img))
              else ret ())" for present
  proof (cases present)
    case True
    then show ?thesis by (simp add: preserves_ret)
  next
    case False
    have "preserves P (docker_pull_image h img 3)"
      using fr ev by (intro preserves_docker_pull_image [OF fr(1)]) simp_all
    then show ?thesis
      using False by (simp add: preserves_andthen preserves_boot_log [OF fr(1) ev])
  qed
  show "P (do_tick 2 s)" if "P s" for s :: "'a machine"
    using that by (intro frame_do_tick [OF fr(1)]) simp_all
  show "P (do_tick 0 s)" if "P s" for s :: "'a machine"
    using that by (intro frame_do_tick [OF fr(1)]) simp_all
qed

lemma preserves_run_stack_item:
  assumes fr: "frame 0 kn A P" "kn \<le> 1" and ev: "\<And>ev. A ev"
  shows "preserves P (run_stack_item h d stack)"
  unfolding run_stack_item_def
proof (intro preserves_andthen preserves_if preserves_skip preserves_upd preserves_for_each)
  show "preserves P (dict_get d stack)" by (rule preserves_dict_get)
  show "preserves P (run_stack_image h img)" for img
    by (rule preserves_run_stack_image [OF fr ev])
  show "preserves P (docker_run_stack h stack 3)"
    using fr ev by (intro preserves_docker_run_stack [OF fr(1)]) simp_all
  show "preserves P (boot_log h ''loading'' (''Stack run: '' @ stack_name_of stack))"
    by (rule preserves_boot_log [OF fr(1) ev])
  show "preserves P (boot_log h ''loading'' (''Stack completed: '' @ stack_name_of stack))"
    by (rule preserves_boot_log [OF fr(1) ev])
  show "P (set_total 2 (1 + int (length images)) s)" if "P s" for s :: "'a machine" and images :: "string list"
    using that fr(2) by (intro frameD(1) [OF fr(1)]) simp_all
  show "P (set_status 2 (''Loading stack: '' @ stack_name_of stack) 0 s)" if "P s" for s :: "'a machine"
    using that by (intro frame_set_status [OF fr(1)]) simp_all
  show "P (do_tick 1 s)" if "P s" for s :: "'a machine"
    using that by (intro frame_do_tick [OF fr(1)]) simp_all
qed

lemma preserves_load_stack_image:
  assumes fr: "frame 0 kn A P" "kn \<le> 1" and ev: "\<And>ev. A ev"
  shows "preserves P (load_stack_image h img)"
  unfolding load_stack_image_def
proof (intro preserves_andthen preserves_upd)
  show "preserves P (docker_pull_image h img 3)"
    using fr ev by (intro preserves_docker_pull_image [OF fr(1)]) simp_all
  show "preserves P (boot_log h ''loading'' (''Image loaded: '' @ img))"
    by (rule preserves_boot_log [OF fr(1) ev])
  show "P (do_tick 2 s)" if "P s" for s :: "'a machine"
    using that by (intro frame_do_tick [OF fr(1)]) simp_all
  show "P (do_tick 0 s)" if "P s" for s :: "'a machine"
    using that by (intro frame_do_tick [OF fr(1)]) simp_all
qed

lemma preserves_load_stack_item:
  assumes fr: "frame 0 kn A P" "kn \<le> 1" and ev: "\<And>ev. A ev"
  shows "preserves P (load_stack_item h d stack)"
  unfolding load_stack_item_def
proof (intro preserves_andthen preserves_if preserves_skip preserves_upd preserves_for_each)
  show "preserves P (dict_get d stack)" by (rule preserves_dict_get)
  show "preserves P (load_stack_image h img)" for img
    by (rule preserves_load_stack_image [OF fr ev])
  show "preserves P (remove_file h stack)"
    by (rule preserves_remove_file [OF fr(1) ev])
  show "preserves P (boot_log h ''loading'' (''Stack completed: '' @ stack_name_of stack))"
    by (rule preserves_boot_log [OF fr(1) ev])
  show "P (set_total 2 (int (length images)) s)" if "P s" for s :: "'a machine" and images :: "string list"
    using that fr(2) by (intro frameD(1) [OF fr(1)]) simp_all
  show "P (set_status 2 (''Loading stack: '' @ stack_name_of stack) 0 s)" if "P s" for s :: "'a machine"
    using that by (intro frame_set_status [OF fr(1)]) simp_all
  show "P (do_tick 1 s)" if "P s" for s :: "'a machine"
    using that by (intro frame_do_tick [OF fr(1)]) simp_all
qed



lemma preserves_phase_tar:
  assumes fr: "frame 0 kn A P" "kn \<le> 1" and ev: "\<And>ev. A ev"
  shows "preserves P (phase_tar h)"
  unfolding phase_tar_def
proof (intro preserves_andthen preserves_upd)
  show "preserves P (\<lambda>s. for_each (load_archive_item h) (images_to_load_tar s) s)"
    by (rule preserves_reading [where m = "for_each (load_archive_item h)"])
      (intro preserves_for_each preserves_load_archive_item [OF fr ev])
  show "P (set_total 1 (int (length (images_to_load_tar s))) s)" if "P s" for s :: "'a machine"
    using that fr(2) by (intro frameD(1) [OF fr(1)]) simp_all
  show "P (set_status 1 ''Loading uncrompressed images (.tar)'' 0 s)" if "P s" for s :: "'a machine"
    using that by (intro frame_set_status [OF fr(1)]) simp_all
qed

lemma preserves_phase_tar_gz:
  assumes fr: "frame 0 kn A P" "kn \<le> 1" and ev: "\<And>ev. A ev"
  shows "preserves P (phase_tar_gz h)"
  unfolding phase_tar_gz_def
proof (intro preserves_andthen preserves_upd)
  show "preserves P (\<lambda>s. for_each (load_archive_item h) (images_to_load_tar_gz s) s)"
    by (rule preserves_reading [where m = "for_each (load_archive_item h)"])
      (intro preserves_for_each preserves_load_archive_item [OF fr ev])
  show "P (set_total 1 (int (length (images_to_load_tar_gz s))) s)" if "P s" for s :: "'a machine"
    using that fr(2) by (intro frameD(1) [OF fr(1)]) simp_all
  show "P (set_status 1 ''Loading crompressed images (.tar.gz)'' 0 s)" if "P s" for s :: "'a machine"
    using that by (intro frame_set_status [OF fr(1)]) simp_all
qed

lemma preserves_phase_stacks_run:
  assumes fr: "frame 0 kn A P" "kn \<le> 1" and ev: "\<And>ev. A ev"
  shows "preserves P (phase_stacks_run h d)"
  unfolding phase_stacks_run_def
proof (intro preserves_andthen preserves_upd)
  show "preserves P (\<lambda>s. for_each (run_stack_item h d) (stacks_to_run_yaml s) s)"
    by (rule preserves_reading [where m = "for_each (run_stack_item h d)"])
      (intro preserves_for_each preserves_run_stack_item [OF fr ev])
  show "P (set_total 1 (int (length (stacks_to_run_yaml s))) s)" if "P s" for s :: "'a machine"
    using that fr(2) by (intro frameD(1) [OF fr(1)]) simp_all
  show "P (set_status 1 ''Loading stacks we run at boot'' 0 s)" if "P s" for s :: "'a machine"
    using that by (intro frame_set_status [OF fr(1)]) simp_all
qed

lemma preserves_phase_stacks_load:
  assumes fr: "frame 0 kn A P" "kn \<le> 1" and ev: "\<And>ev. A ev"
  shows "preserves P (phase_stacks_load h d)"
  unfolding phase_stacks_load_def
proof (intro preserves_andthen preserves_upd)
  show "preserves P (\<lambda>s. for_each (load_stack_item h d) (stacks_to_load_yaml s) s)"
    by (rule preserves_reading [where m = "for_each (load_stack_item h d)"])
      (intro preserves_for_each preserves_load_stack_item [OF fr ev])
  show "P (set_total 1 (int (length (stacks_to_load_yaml s))) s)" if "P s" for s :: "'a machine"
    using that fr(2) by (intro frameD(1) [OF fr(1)]) simp_all
  show "P (set_status 1 ''Loading other stacks'' 0 s)" if "P s" for s :: "'a machine"
    using that by (intro frame_set_status [OF fr(1)]) simp_all
qed

lemma preserves_run:
  assumes fr: "frame 0 0 A P" and ev: "\<And>ev. A ev"
    and busy: "\<And>s b. P s \<Longrightarrow> P (s\<lparr>busy := b\<rparr>)"
  shows "preserves P (run h)"
  unfolding run_def
proof (intro preserves_andthen preserves_upd)
  show "preserves P (\<lambda>s. read_stacks h (stacks_to_load_yaml s) [] s)"
    by (rule preserves_reading [where m = "\<lambda>v. read_stacks h v []"])
      (rule preserves_read_stacks [OF fr ev])
  show "preserves P (\<lambda>s. read_stacks h (stacks_to_run_yaml s) [] s)"
    by (rule preserves_reading [where m = "\<lambda>v. read_stacks h v []"])
      (rule preserves_read_stacks [OF fr ev])
  show "preserves P (phase_tar h)" by (rule preserves_phase_tar [OF fr _ ev]) simp
  show "preserves P (phase_tar_gz h)" by (rule preserves_phase_tar_gz [OF fr _ ev]) simp
  show "preserves P (phase_stacks_run h d)" for d
    by (rule preserves_phase_stacks_run [OF fr _ ev]) simp
  show "preserves P (phase_stacks_load h d)" for d
    by (rule preserves_phase_stacks_load [OF fr _ ev]) simp
  show "preserves P (boot_log h ''done'' ''All stacks up'')"
    by (rule preserves_boot_log [OF fr ev])
  show "P (s\<lparr>busy := True\<rparr>)" if "P s" for s :: "'a machine" using that by (rule busy)
  show "P (s\<lparr>busy := False\<rparr>)" if "P s" for s :: "'a machine" using that by (rule busy)
  show "P (set_total 0 (num_images s sl sr) s)" if "P s" for s :: "'a machine" and sl sr
    using that by (intro frameD(1) [OF fr]) simp_all
  show "P (set_status 0 ''Loading Docker images'' 0 s)" if "P s" for s :: "'a machine"
    using that by (intro frame_set_status [OF fr]) simp_all
qed

lemma preserves_glob_in:
  assumes fr: "frame kt kn A P" and ev: "\<And>ev. A ev"
  shows "preserves P (glob_in h dir pat)"
  unfolding glob_in_def
  by (rule preserves_call) (rule frameD(5) [OF fr _ ev])

lemma preserves_load_configuration:
  assumes fr: "frame 0 0 A P" and ev: "\<And>ev. A ev"
    and files: "\<And>s a b c d. P s \<Longrightarrow>
      P (s\<lparr>images_to_load_tar := a\<rparr>) \<and> P (s\<lparr>images_to_load_tar_gz := b\<rparr>) \<and>
      P (s\<lparr>stacks_to_load_yaml := c\<rparr>) \<and> P (s\<lparr>stacks_to_run_yaml := d\<rparr>)"
  shows "preserves P (load_configuration h)"
  unfolding load_configuration_def
  by (intro preserves_andthen preserves_upd preserves_glob_in [OF fr ev]) (simp_all add: files)

lemma preserves_cycle:
  assumes fr: "frame 0 0 A P" and ev: "\<And>ev. A ev"
    and busy: "\<And>s b. P s \<Longrightarrow> P (s\<lparr>busy := b\<rparr>)"
    and files: "\<And>s a b c d. P s \<Longrightarrow>
      P (s\<lparr>images_to_load_tar := a\<rparr>) \<and> P (s\<lparr>images_to_load_tar_gz := b\<rparr>) \<and>
      P (s\<lparr>stacks_to_load_yaml := c\<rparr>) \<and> P (s\<lparr>stacks_to_run_yaml := d\<rparr>)"
  shows "preserves P (cycle h)"
  unfolding cycle_def
proof (intro preserves_andthen)
  show "preserves P (load_configuration h)"
    by (rule preserves_load_configuration [OF fr ev files])
  show "preserves P (run h)" by (rule preserves_run [OF fr ev busy])
  show "preserves P (call (EvDisableService ''dt.device-init'') (disable_service h ''dt.device-init''))"
    by (rule preserves_call) (rule frameD(5) [OF fr _ ev])
qed

text \<open>Nothing in a cycle writes the error flag or the policy.\<close>

lemma frame_error: "frame 0 0 (\<lambda>ev. True) (\<lambda>s. error s = e \<and> do_delete s = d \<and> exclude_run s = x)"
  by (simp add: frame_def set_total_def set_tick_def set_action_fields set_action_def Let_def
      fold_clear_level)

lemma cycle_keeps_flags:
  assumes "cycle h s = (r, s1)"
  shows "error s1 = error s \<and> do_delete s1 = do_delete s \<and> exclude_run s1 = exclude_run s"
proof -
  have "preserves (\<lambda>s'. error s' = error s \<and> do_delete s' = do_delete s \<and> exclude_run s' = exclude_run s)
      (cycle h)"
    by (rule preserves_cycle [OF frame_error]) simp_all
  from preservesD [OF this _ assms] show ?thesis by simp
qed



section \<open>The cycle controller\<close>

lemma andthen_InrE:
  assumes "andthen m f s = (Inr y, s1)"
  obtains x s0 where "m s = (Inr x, s0)" "f x s0 = (Inr y, s1)"
proof -
  obtain r s0 where m: "m s = (r, s0)" by (cases "m s")
  show ?thesis
  proof (cases r)
    case (Inl e)
    then show ?thesis using assms m by (simp add: andthen_def)
  next
    case (Inr x)
    then show ?thesis using assms m that by (simp add: andthen_def)
  qed
qed

lemma run_success_not_busy:
  assumes "run h s = (Inr u, s1)"
  shows "\<not> busy s1"
  using assms unfolding run_def
  by (elim andthen_InrE) (auto simp: upd_def)

lemma cycle_success_not_busy:
  assumes "cycle h s = (Inr u, s1)"
  shows "\<not> busy s1"
proof -
  from assms obtain sa sb ua ub where r: "run h sa = (Inr ub, sb)"
    and c: "call (EvDisableService ''dt.device-init'') (disable_service h ''dt.device-init'') sb = (Inr u, s1)"
    unfolding cycle_def by (elim andthen_InrE) blast
  have "busy s1 = busy sb" using c by (auto simp: call_def split: prod.splits)
  then show ?thesis using run_success_not_busy [OF r] by simp
qed

text \<open>The join over \<^verbatim>\<open>sys.exc_info()\<close> raises at the first item, the class of the exception.\<close>

lemma show_nat_0: "show_nat 0 = ''0''"
  by code_simp

lemma str_join_exc_info:
  "str_join sep (exc_info raised) =
     Inl (Exn ''TypeError'' ''sequence item 0: expected str instance, type found'')"
  by (simp add: str_join_def exc_info_def type_name_def show_nat_0)

lemma handler_raises:
  "handler raised recheck_period s =
     (Some (Exn ''TypeError'' ''sequence item 0: expected str instance, type found''), recheck_period, s)"
  by (simp add: handler_def str_join_exc_info)

lemma nap_fields [simp]:
  "error (nap h n s) = error s" "busy (nap h n s) = busy s" "action (nap h n s) = action s"
  "calls (nap h n s) = calls s @ [EvSleep n]"
  by (simp_all add: nap_def)

lemma start_iteration_cases:
  "(\<exists>s1. cycle h s = (Inr (), s1) \<and> start_iteration h p s = (None, p, nap h p s1)) \<or>
   (\<exists>e s1. cycle h s = (Inl e, s1) \<and>
      start_iteration h p s =
        (Some (Exn ''TypeError'' ''sequence item 0: expected str instance, type found''), p, nap h p s1))"
proof -
  obtain r s1 where c: "cycle h s = (r, s1)" by (cases "cycle h s")
  show ?thesis
  proof (cases r)
    case (Inl e)
    then show ?thesis using c by (simp add: start_iteration_def handler_raises)
  next
    case (Inr u)
    then show ?thesis using c by (simp add: start_iteration_def)
  qed
qed

lemma start_iteration_keeps:
  assumes "start_iteration h p s = (esc, p1, s1)"
  shows "p1 = p \<and> error s1 = error s"
  using start_iteration_cases [of h s p] assms cycle_keeps_flags [of h s]
  by auto

lemma start_loop_keeps:
  assumes "start_loop h n p0 s0 = (out, p, s)"
  shows "p = p0 \<and> error s = error s0"
  using assms
proof (induction n arbitrary: p0 s0)
  case 0
  then show ?case by simp
next
  case (Suc n)
  show ?case
  proof (cases "is_shutdown h (world s0)")
    case True
    then show ?thesis using Suc.prems by simp
  next
    case False
    obtain esc p1 s1 where it: "start_iteration h p0 s0 = (esc, p1, s1)"
      by (cases "start_iteration h p0 s0") auto
    note k = start_iteration_keeps [OF it]
    show ?thesis
    proof (cases esc)
      case None
      then have "start_loop h n p1 s1 = (out, p, s)" using Suc.prems False it by simp
      then show ?thesis using Suc.IH k by fastforce
    next
      case (Some e)
      then show ?thesis using Suc.prems False it k by simp
    qed
  qed
qed

lemma init_machine_error [simp]: "\<not> error (init_machine environ w)"
  by (simp add: init_machine_def init_loader_def code_loader.extend_def)


end
